theory Spec2Isabelle
  imports Main "HOL-Library.Word"
begin

unbundle bit_operations_syntax

section \<open>Entities\<close>

text \<open>
  The Go program keeps one \<open>Song\<close> object per entity and every index structure holds a
  pointer to it. Pointers are modelled as addresses (\<open>nat\<close>) into a store of songs, a list
  that grows by one on each allocation (\<open>NewSong\<close>); the address of a song is its position.
  The engine never stores a nil song pointer, so addresses are always non-nil.
  Go's \<open>int\<close> is modelled as \<open>int\<close>; the time stamps \<open>AddedAt\<close> and
  \<open>LastPlayed\<close> are nanosecond counts.
\<close>

type_synonym ref = nat

record Song =
  ID :: string
  Title :: string
  Artist :: string
  Album :: string
  Duration :: int
  Genre :: string
  SubGenre :: string
  Mood :: string
  BPM :: int
  Rating :: int
  PlayCount :: int
  AddedAt :: int
  LastPlayed :: "int option"

type_synonym store = "Song list"

text \<open>
  \<open>make\<close> of a slice of pointers with a length or capacity \<open>n\<close> panics when \<open>n\<close> is
  negative or when \<open>n\<close> pointers of 8 bytes are more than the runtime allocates at all,
  \<open>2 ^ 48\<close> bytes on a 64-bit platform. Running out of memory below that limit is
  outside the model.
\<close>

definition makePanics :: "int \<Rightarrow> bool" where
  "makePanics n \<longleftrightarrow> n < 0 \<or> 2 ^ 45 < n"

datatype error =
    EmptyHistory
  | IndexOutOfBounds
  | EmptyKey
  | NotFound
  | TitleArtistRequired
  | AlreadyExists
  | RatingOutOfRange

text \<open>\<open>NewSong\<close> reads the clock for \<open>AddedAt\<close>; the reading is the parameter \<open>now\<close>.\<close>

definition NewSong ::
  "int \<Rightarrow> string \<Rightarrow> string \<Rightarrow> string \<Rightarrow> string \<Rightarrow> string \<Rightarrow> string \<Rightarrow> string \<Rightarrow> int \<Rightarrow> int \<Rightarrow> Song" where
  "NewSong now songID title artist album genre subgenre mood duration bpm =
     \<lparr>ID = songID, Title = title, Artist = artist, Album = album, Duration = duration,
      Genre = genre, SubGenre = subgenre, Mood = mood, BPM = bpm, Rating = 0,
      PlayCount = 0, AddedAt = now, LastPlayed = None\<rparr>"

definition Play :: "int \<Rightarrow> Song \<Rightarrow> Song" where
  "Play now s = s\<lparr>PlayCount := PlayCount s + 1, LastPlayed := Some now\<rparr>"

definition SetRating :: "int \<Rightarrow> Song \<Rightarrow> Song" where
  "SetRating rating s = (if rating \<ge> 1 \<and> rating \<le> 5 then s\<lparr>Rating := rating\<rparr> else s)"


section \<open>Recency stack (\<open>PlaybackHistoryStack\<close>)\<close>

text \<open>
  The stack is a nil-terminated singly linked chain of nodes owned by the stack; the chain
  reachable from \<open>Top\<close> is the list of the nodes' song pointers, most recent first.
\<close>

record PlaybackHistoryStack =
  Top :: "ref list"
  Size :: int
  MaxSize :: int

definition NewPlaybackHistoryStack :: "int \<Rightarrow> PlaybackHistoryStack" where
  "NewPlaybackHistoryStack maxSize =
     \<lparr>Top = [], Size = 0, MaxSize = (if maxSize \<le> 0 then 50 else maxSize)\<rparr>"

definition Clear_stack :: "PlaybackHistoryStack \<Rightarrow> PlaybackHistoryStack" where
  "Clear_stack phs = phs\<lparr>Top := [], Size := 0\<rparr>"

text \<open>
  The walk of \<open>removeBottom\<close>: \<open>current\<close> advances while \<open>current.Next.Next\<close> is not
  nil, then \<open>current.Next\<close> is cut. On a chain of fewer than two nodes the walk dereferences
  nil and panics (\<open>None\<close>).
\<close>

fun cutLast :: "ref list \<Rightarrow> ref list option" where
  "cutLast [] = None"
| "cutLast [x] = None"
| "cutLast [x, y] = Some [x]"
| "cutLast (x # y # z # zs) = map_option (Cons x) (cutLast (y # z # zs))"

definition removeBottom :: "PlaybackHistoryStack \<Rightarrow> PlaybackHistoryStack option" where
  "removeBottom phs =
     (if Size phs \<le> 1 then Some (Clear_stack phs)
      else map_option (\<lambda>t. phs\<lparr>Top := t, Size := Size phs - 1\<rparr>) (cutLast (Top phs)))"

definition Push :: "ref \<Rightarrow> PlaybackHistoryStack \<Rightarrow> PlaybackHistoryStack option" where
  "Push song phs =
     (let phs1 = phs\<lparr>Top := song # Top phs, Size := Size phs + 1\<rparr>
      in if Size phs1 > MaxSize phs1 then removeBottom phs1 else Some phs1)"

definition IsEmpty_stack :: "PlaybackHistoryStack \<Rightarrow> bool" where
  "IsEmpty_stack phs = (Size phs = 0)"

text \<open>\<open>Pop\<close> reads \<open>Top.Song\<close>; with \<open>Size \<noteq> 0\<close> and a nil \<open>Top\<close> it panics (\<open>None\<close>).\<close>

definition Pop :: "PlaybackHistoryStack \<Rightarrow> (error + ref \<times> PlaybackHistoryStack) option" where
  "Pop phs =
     (if IsEmpty_stack phs then Some (Inl EmptyHistory)
      else case Top phs of
             [] \<Rightarrow> None
           | song # rest \<Rightarrow> Some (Inr (song, phs\<lparr>Top := rest, Size := Size phs - 1\<rparr>)))"

definition Peek :: "PlaybackHistoryStack \<Rightarrow> (error + ref) option" where
  "Peek phs =
     (if IsEmpty_stack phs then Some (Inl EmptyHistory)
      else case Top phs of [] \<Rightarrow> None | song # rest \<Rightarrow> Some (Inr song))"

definition UndoLastPlay_stack ::
  "PlaybackHistoryStack \<Rightarrow> (error + ref \<times> PlaybackHistoryStack) option" where
  "UndoLastPlay_stack phs = Pop phs"

fun toSliceLoop :: "ref list \<Rightarrow> ref list \<Rightarrow> ref list" where
  "toSliceLoop [] songs = songs"
| "toSliceLoop (song # rest) songs = toSliceLoop rest (songs @ [song])"

definition ToSlice_stack :: "PlaybackHistoryStack \<Rightarrow> ref list" where
  "ToSlice_stack phs = toSliceLoop (Top phs) []"

fun recentLoop :: "ref list \<Rightarrow> int \<Rightarrow> int \<Rightarrow> ref list \<Rightarrow> ref list" where
  "recentLoop [] count n songs = songs"
| "recentLoop (song # rest) count n songs =
     (if count < n then recentLoop rest (count + 1) n (songs @ [song]) else songs)"

definition GetRecentSongs :: "int \<Rightarrow> PlaybackHistoryStack \<Rightarrow> ref list" where
  "GetRecentSongs n phs = (if n \<le> 0 then [] else recentLoop (Top phs) 0 n [])"

text \<open>A sequence of pushes, oldest first; a panic of one push ends the run.\<close>

fun PushAll :: "ref list \<Rightarrow> PlaybackHistoryStack \<Rightarrow> PlaybackHistoryStack option" where
  "PushAll [] phs = Some phs"
| "PushAll (song # songs) phs =
     (case Push song phs of None \<Rightarrow> None | Some phs' \<Rightarrow> PushAll songs phs')"

section \<open>Ordered sequence (\<open>DoublyLinkedList\<close>)\<close>

text \<open>
  The nodes of the list live in a node store owned by the list: a node pointer is
  \<open>Some a\<close> for the node at address \<open>a\<close> of \<open>nodes\<close>, or \<open>None\<close> for nil. A new node
  is allocated at the end of the store; an unlinked node stays in the store as garbage.
  A function returns \<open>None\<close> where the Go code does not return normally: a nil (or
  dangling) pointer is dereferenced, or a traversal of a cyclic chain never ends.
\<close>

record PlaylistNode =
  Song :: ref
  Next :: "nat option"
  Prev :: "nat option"

record DoublyLinkedList =
  nodes :: "PlaylistNode list"
  Head :: "nat option"
  Tail :: "nat option"
  Length :: int

text \<open>Go's integer division truncates towards zero.\<close>

definition go_div :: "int \<Rightarrow> int \<Rightarrow> int" where
  "go_div a b = (if (a < 0) = (b < 0) then \<bar>a\<bar> div \<bar>b\<bar> else - (\<bar>a\<bar> div \<bar>b\<bar>))"

definition getNode :: "PlaylistNode list \<Rightarrow> nat option \<Rightarrow> PlaylistNode option" where
  "getNode ns p = (case p of None \<Rightarrow> None
                   | Some a \<Rightarrow> if a < length ns then Some (ns ! a) else None)"

definition setNext :: "nat option \<Rightarrow> nat option \<Rightarrow> PlaylistNode list \<Rightarrow> PlaylistNode list option" where
  "setNext p v ns = (case p of None \<Rightarrow> None
                     | Some a \<Rightarrow> if a < length ns then Some (ns[a := (ns ! a)\<lparr>Next := v\<rparr>]) else None)"

definition setPrev :: "nat option \<Rightarrow> nat option \<Rightarrow> PlaylistNode list \<Rightarrow> PlaylistNode list option" where
  "setPrev p v ns = (case p of None \<Rightarrow> None
                     | Some a \<Rightarrow> if a < length ns then Some (ns[a := (ns ! a)\<lparr>Prev := v\<rparr>]) else None)"

definition NewDoublyLinkedList :: DoublyLinkedList where
  "NewDoublyLinkedList = \<lparr>nodes = [], Head = None, Tail = None, Length = 0\<rparr>"

definition AddSong_dll :: "ref \<Rightarrow> DoublyLinkedList \<Rightarrow> DoublyLinkedList option" where
  "AddSong_dll song dll =
     (let newNode = \<lparr>Song = song, Next = None, Prev = Tail dll\<rparr>;
          a = length (nodes dll)
      in if Head dll = None
         then Some (dll\<lparr>nodes := nodes dll @ [newNode], Head := Some a, Tail := Some a,
                         Length := Length dll + 1\<rparr>)
         else case setNext (Tail dll) (Some a) (nodes dll) of
                None \<Rightarrow> None
              | Some ns \<Rightarrow> Some (dll\<lparr>nodes := ns @ [newNode], Tail := Some a,
                                       Length := Length dll + 1\<rparr>))"

definition AddSongToBeginning :: "ref \<Rightarrow> DoublyLinkedList \<Rightarrow> DoublyLinkedList option" where
  "AddSongToBeginning song dll =
     (let newNode = \<lparr>Song = song, Next = Head dll, Prev = None\<rparr>;
          a = length (nodes dll)
      in if Head dll = None
         then Some (dll\<lparr>nodes := nodes dll @ [newNode], Head := Some a, Tail := Some a,
                         Length := Length dll + 1\<rparr>)
         else case setPrev (Head dll) (Some a) (nodes dll) of
                None \<Rightarrow> None
              | Some ns \<Rightarrow> Some (dll\<lparr>nodes := ns @ [newNode], Head := Some a,
                                       Length := Length dll + 1\<rparr>))"

text \<open>
  The two loops of \<open>getNodeAtIndex\<close>: \<open>k\<close> steps along \<open>Next\<close> from the head, or along
  \<open>Prev\<close> from the tail. A step from nil panics.
\<close>

fun walkNext :: "PlaylistNode list \<Rightarrow> nat option \<Rightarrow> nat \<Rightarrow> nat option option" where
  "walkNext ns current 0 = Some current"
| "walkNext ns current (Suc k) =
     (case getNode ns current of None \<Rightarrow> None | Some n \<Rightarrow> walkNext ns (Next n) k)"

fun walkPrev :: "PlaylistNode list \<Rightarrow> nat option \<Rightarrow> nat \<Rightarrow> nat option option" where
  "walkPrev ns current 0 = Some current"
| "walkPrev ns current (Suc k) =
     (case getNode ns current of None \<Rightarrow> None | Some n \<Rightarrow> walkPrev ns (Prev n) k)"

definition getNodeAtIndex :: "int \<Rightarrow> DoublyLinkedList \<Rightarrow> nat option option" where
  "getNodeAtIndex index dll =
     (if index < go_div (Length dll) 2
      then walkNext (nodes dll) (Head dll) (nat index)
      else walkPrev (nodes dll) (Tail dll) (nat (Length dll - 1 - index)))"

definition AddSongAtIndex ::
  "ref \<Rightarrow> int \<Rightarrow> DoublyLinkedList \<Rightarrow> (error option \<times> DoublyLinkedList) option" where
  "AddSongAtIndex song index dll =
     (if index < 0 \<or> index > Length dll then Some (Some IndexOutOfBounds, dll)
      else if index = Length dll then map_option (Pair None) (AddSong_dll song dll)
      else if index = 0 then map_option (Pair None) (AddSongToBeginning song dll)
      else
        case getNodeAtIndex index dll of None \<Rightarrow> None | Some current \<Rightarrow>
        case getNode (nodes dll) current of None \<Rightarrow> None | Some cur \<Rightarrow>
        let newNode = \<lparr>Song = song, Next = current, Prev = Prev cur\<rparr>;
            a = length (nodes dll)
        in case setNext (Prev cur) (Some a) (nodes dll @ [newNode]) of None \<Rightarrow> None | Some ns1 \<Rightarrow>
           case setPrev current (Some a) ns1 of None \<Rightarrow> None | Some ns2 \<Rightarrow>
           Some (None, dll\<lparr>nodes := ns2, Length := Length dll + 1\<rparr>))"

definition DeleteSong_dll ::
  "int \<Rightarrow> DoublyLinkedList \<Rightarrow> ((error + ref) \<times> DoublyLinkedList) option" where
  "DeleteSong_dll index dll =
     (if index < 0 \<or> index \<ge> Length dll then Some (Inl IndexOutOfBounds, dll)
      else if Length dll = 1 then
        (case getNode (nodes dll) (Head dll) of None \<Rightarrow> None
         | Some h \<Rightarrow> Some (Inr (Song h), dll\<lparr>Head := None, Tail := None, Length := 0\<rparr>))
      else
        case getNodeAtIndex index dll of None \<Rightarrow> None | Some nodeToDelete \<Rightarrow>
        case getNode (nodes dll) nodeToDelete of None \<Rightarrow> None | Some del \<Rightarrow>
        if nodeToDelete = Head dll then
          (case setPrev (Next del) None (nodes dll) of None \<Rightarrow> None
           | Some ns \<Rightarrow> Some (Inr (Song del),
                        dll\<lparr>nodes := ns, Head := Next del, Length := Length dll - 1\<rparr>))
        else if nodeToDelete = Tail dll then
          (case setNext (Prev del) None (nodes dll) of None \<Rightarrow> None
           | Some ns \<Rightarrow> Some (Inr (Song del),
                        dll\<lparr>nodes := ns, Tail := Prev del, Length := Length dll - 1\<rparr>))
        else
          (case setNext (Prev del) (Next del) (nodes dll) of None \<Rightarrow> None | Some ns1 \<Rightarrow>
           case getNode ns1 nodeToDelete of None \<Rightarrow> None | Some del1 \<Rightarrow>
           case setPrev (Next del1) (Prev del1) ns1 of None \<Rightarrow> None | Some ns2 \<Rightarrow>
           Some (Inr (Song del), dll\<lparr>nodes := ns2, Length := Length dll - 1\<rparr>)))"

definition MoveSong_dll ::
  "int \<Rightarrow> int \<Rightarrow> DoublyLinkedList \<Rightarrow> (error option \<times> DoublyLinkedList) option" where
  "MoveSong_dll fromIndex toIndex dll =
     (if fromIndex < 0 \<or> fromIndex \<ge> Length dll \<or> toIndex < 0 \<or> toIndex \<ge> Length dll
      then Some (Some IndexOutOfBounds, dll)
      else if fromIndex = toIndex then Some (None, dll)
      else case DeleteSong_dll fromIndex dll of
             None \<Rightarrow> None
           | Some (Inl err, dll1) \<Rightarrow> Some (Some err, dll1)
           | Some (Inr song, dll1) \<Rightarrow>
               AddSongAtIndex song (if toIndex > fromIndex then toIndex - 1 else toIndex) dll1)"

text \<open>
  The loop of \<open>ReversePlaylist\<close>: swap \<open>Next\<close> and \<open>Prev\<close> of the current node and go on
  with what was its \<open>Next\<close>, until nil.
\<close>

partial_function (option) reverseLoop ::
  "PlaylistNode list \<Rightarrow> nat option \<Rightarrow> PlaylistNode list option" where
  "reverseLoop ns current =
     (case current of
        None \<Rightarrow> Some ns
      | Some a \<Rightarrow>
          if a < length ns
          then reverseLoop (ns[a := (ns ! a)\<lparr>Next := Prev (ns ! a), Prev := Next (ns ! a)\<rparr>])
                 (Next (ns ! a))
          else None)"

declare reverseLoop.simps [code]

definition ReversePlaylist_dll :: "DoublyLinkedList \<Rightarrow> DoublyLinkedList option" where
  "ReversePlaylist_dll dll =
     (if Head dll = None \<or> Head dll = Tail dll then Some dll
      else case reverseLoop (nodes dll) (Head dll) of
             None \<Rightarrow> None
           | Some ns \<Rightarrow> Some (dll\<lparr>nodes := ns, Head := Tail dll, Tail := Head dll\<rparr>))"

definition GetSong_dll :: "int \<Rightarrow> DoublyLinkedList \<Rightarrow> (error + ref) option" where
  "GetSong_dll index dll =
     (if index < 0 \<or> index \<ge> Length dll then Some (Inl IndexOutOfBounds)
      else case getNodeAtIndex index dll of None \<Rightarrow> None | Some node \<Rightarrow>
           case getNode (nodes dll) node of None \<Rightarrow> None | Some n \<Rightarrow> Some (Inr (Song n)))"

partial_function (option) toSliceFrom ::
  "PlaylistNode list \<Rightarrow> nat option \<Rightarrow> ref list \<Rightarrow> ref list option" where
  "toSliceFrom ns current songs =
     (case current of
        None \<Rightarrow> Some songs
      | Some a \<Rightarrow>
          if a < length ns then toSliceFrom ns (Next (ns ! a)) (songs @ [Song (ns ! a)])
          else None)"

declare toSliceFrom.simps [code]

definition ToSlice_dll :: "DoublyLinkedList \<Rightarrow> ref list option" where
  "ToSlice_dll dll = toSliceFrom (nodes dll) (Head dll) []"

definition Size_dll :: "DoublyLinkedList \<Rightarrow> int" where
  "Size_dll dll = Length dll"

definition IsEmpty_dll :: "DoublyLinkedList \<Rightarrow> bool" where
  "IsEmpty_dll dll = (Length dll = 0)"

definition Clear_dll :: "DoublyLinkedList \<Rightarrow> DoublyLinkedList" where
  "Clear_dll dll = dll\<lparr>Head := None, Tail := None, Length := 0\<rparr>"

text \<open>
  A well-formed list: \<open>as\<close> are the addresses of its nodes from head to tail. The nodes
  are distinct and allocated, \<open>Head\<close> and \<open>Tail\<close> are the first and the last (nil when
  there is none), \<open>Length\<close> is their number, each node's \<open>Next\<close> is its successor and its
  \<open>Prev\<close> its predecessor (nil at the ends). Every list built by the operations from
  \<open>NewDoublyLinkedList\<close> has this shape.
\<close>

definition dll_inv :: "DoublyLinkedList \<Rightarrow> nat list \<Rightarrow> bool" where
  "dll_inv dll as \<longleftrightarrow>
     distinct as \<and> (\<forall>a\<in>set as. a < length (nodes dll))
     \<and> Length dll = int (length as)
     \<and> Head dll = (if as = [] then None else Some (hd as))
     \<and> Tail dll = (if as = [] then None else Some (last as))
     \<and> (\<forall>i<length as.
           Next (nodes dll ! (as ! i)) = (if Suc i < length as then Some (as ! Suc i) else None)
           \<and> Prev (nodes dll ! (as ! i)) = (if i = 0 then None else Some (as ! (i - 1))))"

text \<open>The entities of a well-formed list, in order.\<close>

definition songs_of :: "DoublyLinkedList \<Rightarrow> nat list \<Rightarrow> ref list" where
  "songs_of dll as = map (\<lambda>a. Song (nodes dll ! a)) as"

text \<open>Removal and insertion at a position of a plain list, the reference behaviour.\<close>

definition remove_at :: "nat \<Rightarrow> 'a list \<Rightarrow> 'a list" where
  "remove_at i xs = take i xs @ drop (Suc i) xs"

definition insert_at :: "nat \<Rightarrow> 'a \<Rightarrow> 'a list \<Rightarrow> 'a list" where
  "insert_at i x xs = take i xs @ x # drop i xs"

text \<open>A node with its two links exchanged, as one step of the reversal leaves it.\<close>

definition swapped :: "PlaylistNode \<Rightarrow> PlaylistNode" where
  "swapped n = n\<lparr>Next := Prev n, Prev := Next n\<rparr>"

section \<open>Direct-lookup index (\<open>SongHashMap\<close>)\<close>

text \<open>
  A bucket is the chain of entries hanging from its slot (nil is the empty chain); a chain
  is owned by its slot, so it is a list of entries. \<open>Size\<close> and \<open>Capacity\<close> are Go
  \<open>int\<close>s; they count allocated objects, which a 64-bit address space cannot hold
  \<open>2 ^ 63\<close> of, so they do not wrap and are modelled by \<open>int\<close>. The hash itself does wrap
  and is computed on 64-bit words. Strings are lists of characters; \<open>range\<close> over a Go
  string yields its code points, which for ASCII text are its bytes.
\<close>

record HashMapEntry =
  Key :: string
  Value :: ref

record SongHashMap =
  Buckets :: "HashMapEntry list list"
  Size_hm :: int
  Capacity :: int

definition NewSongHashMap :: "int \<Rightarrow> SongHashMap" where
  "NewSongHashMap capacity =
     (let c = (if capacity \<le> 0 then 16 else capacity)
      in \<lparr>Buckets = replicate (nat c) [], Size_hm = 0, Capacity = c\<rparr>)"

text \<open>Go's remainder takes the sign of the dividend.\<close>

definition go_mod :: "int \<Rightarrow> int \<Rightarrow> int" where
  "go_mod a b = (if a < 0 then - ((- a) mod \<bar>b\<bar>) else a mod \<bar>b\<bar>)"

text \<open>
  A string is a sequence of bytes, and \<open>for _, c := range key\<close> yields its code points
  by UTF-8 decoding: a byte below \<open>0x80\<close> is its own code point; a lead byte \<open>0xC2\<close> to
  \<open>0xF4\<close> followed by the continuation bytes its length asks for (the first one in the
  range that excludes overlong forms, surrogates and values above \<open>0x10FFFF\<close>) yields the
  code point they encode; every other byte yields \<open>0xFFFD\<close> and is passed alone.
  \<open>decodeRune\<close> gives the code point at the head of the string and the number of bytes
  consumed after the first.
\<close>

definition isCont :: "char \<Rightarrow> bool" where
  "isCont c \<longleftrightarrow> 128 \<le> (of_char c :: nat) \<and> (of_char c :: nat) \<le> 191"

definition decodeRune :: "char \<Rightarrow> string \<Rightarrow> nat \<times> nat" where
  "decodeRune c cs =
     (let b0 = (of_char c :: nat) in
      if b0 < 128 then (b0, 0)
      else if b0 < 194 \<or> 244 < b0 then (65533, 0)
      else
        let lo = (if b0 = 224 then 160 else if b0 = 240 then 144 else 128);
            hi = (if b0 = 237 then 159 else if b0 = 244 then 143 else 191)
        in case cs of
             [] \<Rightarrow> (65533, 0)
           | c1 # cs1 \<Rightarrow>
               let b1 = (of_char c1 :: nat) in
               if b1 < lo \<or> hi < b1 then (65533, 0)
               else if b0 < 224 then ((b0 mod 32) * 64 + b1 mod 64, 1)
               else
                 (case cs1 of
                    [] \<Rightarrow> (65533, 0)
                  | c2 # cs2 \<Rightarrow>
                      let b2 = (of_char c2 :: nat) in
                      if \<not> isCont c2 then (65533, 0)
                      else if b0 < 240
                      then ((b0 mod 16) * 4096 + (b1 mod 64) * 64 + b2 mod 64, 2)
                      else
                        (case cs2 of
                           [] \<Rightarrow> (65533, 0)
                         | c3 # cs3 \<Rightarrow>
                             let b3 = (of_char c3 :: nat) in
                             if \<not> isCont c3 then (65533, 0)
                             else ((b0 mod 8) * 262144 + (b1 mod 64) * 4096
                                     + (b2 mod 64) * 64 + b3 mod 64, 3))))"

fun runes :: "string \<Rightarrow> nat list" where
  "runes [] = []"
| "runes (c # cs) = fst (decodeRune c cs) # runes (drop (snd (decodeRune c cs)) cs)"

text \<open>The djb2 value of the key, in 64-bit arithmetic, over its code points.\<close>

definition djb2 :: "string \<Rightarrow> 64 word" where
  "djb2 key = foldl (\<lambda>h c. (push_bit 5 h + h) + of_nat c) 5381 (runes key)"

text \<open>
  \<open>hash\<close>: the djb2 value, negated when negative (the most negative value stays as it
  is), modulo the capacity. A zero capacity panics (\<open>None\<close>).
\<close>

definition hash :: "SongHashMap \<Rightarrow> string \<Rightarrow> int option" where
  "hash shm key =
     (let h = djb2 key;
          h' = (if sint h < 0 then - h else h)
      in if Capacity shm = 0 then None else Some (go_mod (sint h') (Capacity shm)))"

text \<open>Reading \<open>Buckets[index]\<close>: an index outside the slice panics.\<close>

definition bucketAt :: "SongHashMap \<Rightarrow> string \<Rightarrow> (nat \<times> HashMapEntry list) option" where
  "bucketAt shm key =
     (case hash shm key of
        None \<Rightarrow> None
      | Some index \<Rightarrow>
          if 0 \<le> index \<and> nat index < length (Buckets shm)
          then Some (nat index, Buckets shm ! nat index) else None)"

text \<open>A song pointer is dereferenced in the store; there is no object outside it.\<close>

definition deref :: "store \<Rightarrow> ref \<Rightarrow> Song option" where
  "deref st r = (if r < length st then Some (st ! r) else None)"

text \<open>
  The chain walk of \<open>Put\<close> on a non-empty chain: the entry with the key gets the new
  value (\<open>True\<close>: found), or a new entry is linked after the last one (\<open>False\<close>).
\<close>

fun chainPut :: "string \<Rightarrow> ref \<Rightarrow> HashMapEntry list \<Rightarrow> HashMapEntry list \<times> bool" where
  "chainPut k v [] = ([\<lparr>Key = k, Value = v\<rparr>], False)"
| "chainPut k v (e # es) =
     (if Key e = k then (e\<lparr>Value := v\<rparr> # es, True)
      else let (es', found) = chainPut k v es in (e # es', found))"

text \<open>
  The table insertion shared by \<open>Put\<close> and \<open>PutByTitle\<close>, up to the resize check. The
  result says whether the code goes on to the check \<open>Size > Capacity * 2\<close>: it does so
  only after linking a new entry to a non-empty chain; the empty-bucket branch and the
  update branch return before it. The result is the pair of the new table and that flag.
\<close>

definition putKey :: "string \<Rightarrow> ref \<Rightarrow> SongHashMap \<Rightarrow> (SongHashMap \<times> bool) option" where
  "putKey k v shm =
     (case bucketAt shm k of
        None \<Rightarrow> None
      | Some (index, entry) \<Rightarrow>
          if entry = [] then
            Some (shm\<lparr>Buckets := (Buckets shm)[index := [\<lparr>Key = k, Value = v\<rparr>]],
                       Size_hm := Size_hm shm + 1\<rparr>, False)
          else
            let (chain, found) = chainPut k v entry in
            if found then Some (shm\<lparr>Buckets := (Buckets shm)[index := chain]\<rparr>, False)
            else Some (shm\<lparr>Buckets := (Buckets shm)[index := chain],
                            Size_hm := Size_hm shm + 1\<rparr>, True))"

text \<open>
  \<open>Put\<close>, \<open>PutByTitle\<close> and \<open>resize\<close> call each other: a put that links an entry to a
  chain and finds \<open>Size > Capacity * 2\<close> calls \<open>resize\<close>, which doubles the capacity,
  allocates the buckets, resets \<open>Size\<close> and calls \<open>Put\<close> on the value of every old entry,
  bucket by bucket and along each chain. The three are one recursive function on the call
  made; \<open>Rehash\<close> is the loop of \<open>resize\<close> over the values still to be put. \<open>None\<close> is
  a panic or a recursion that never ends; \<open>make\<close> of the doubled bucket slice can
  panic.
\<close>

datatype hm_call =
    CallPut ref SongHashMap
  | CallPutByTitle ref SongHashMap
  | CallResize SongHashMap
  | Rehash "ref list" SongHashMap

partial_function (option) hm_exec :: "store \<Rightarrow> hm_call \<Rightarrow> SongHashMap option" where
  "hm_exec st call =
     (case call of
        CallPut song shm \<Rightarrow>
          (case deref st song of
             None \<Rightarrow> None
           | Some s \<Rightarrow>
               if ID s = [] then Some shm
               else case putKey (ID s) song shm of
                      None \<Rightarrow> None
                    | Some r \<Rightarrow>
                        if snd r \<and> Size_hm (fst r) > Capacity (fst r) * 2
                        then hm_exec st (CallResize (fst r)) else Some (fst r))
      | CallPutByTitle song shm \<Rightarrow>
          (case deref st song of
             None \<Rightarrow> None
           | Some s \<Rightarrow>
               if Title s = [] then Some shm
               else case putKey (Title s) song shm of
                      None \<Rightarrow> None
                    | Some r \<Rightarrow>
                        if snd r \<and> Size_hm (fst r) > Capacity (fst r) * 2
                        then hm_exec st (CallResize (fst r)) else Some (fst r))
      | CallResize shm \<Rightarrow>
          (if makePanics (Capacity shm * 2) then None
           else hm_exec st
                  (Rehash (map Value (concat (take (nat (Capacity shm)) (Buckets shm))))
                     \<lparr>Buckets = replicate (nat (Capacity shm * 2)) [], Size_hm = 0,
                        Capacity = Capacity shm * 2\<rparr>))
      | Rehash values shm \<Rightarrow>
          (case values of
             [] \<Rightarrow> Some shm
           | v # vs \<Rightarrow>
               Option.bind (hm_exec st (CallPut v shm)) (\<lambda>shm'. hm_exec st (Rehash vs shm'))))"

declare hm_exec.simps [code]

definition Put :: "store \<Rightarrow> ref \<Rightarrow> SongHashMap \<Rightarrow> SongHashMap option" where
  "Put st song shm = hm_exec st (CallPut song shm)"

definition PutByTitle :: "store \<Rightarrow> ref \<Rightarrow> SongHashMap \<Rightarrow> SongHashMap option" where
  "PutByTitle st song shm = hm_exec st (CallPutByTitle song shm)"

definition resize :: "store \<Rightarrow> SongHashMap \<Rightarrow> SongHashMap option" where
  "resize st shm = hm_exec st (CallResize shm)"

fun chainGet :: "string \<Rightarrow> HashMapEntry list \<Rightarrow> ref option" where
  "chainGet k [] = None"
| "chainGet k (e # es) = (if Key e = k then Some (Value e) else chainGet k es)"

definition Get :: "string \<Rightarrow> SongHashMap \<Rightarrow> (error + ref) option" where
  "Get songID shm =
     (if songID = [] then Some (Inl EmptyKey)
      else case bucketAt shm songID of
             None \<Rightarrow> None
           | Some (index, entry) \<Rightarrow>
               (case chainGet songID entry of
                  None \<Rightarrow> Some (Inl NotFound)
                | Some song \<Rightarrow> Some (Inr song)))"

definition GetByTitle :: "string \<Rightarrow> SongHashMap \<Rightarrow> (error + ref) option" where
  "GetByTitle title shm =
     (if title = [] then Some (Inl EmptyKey)
      else case bucketAt shm title of
             None \<Rightarrow> None
           | Some (index, entry) \<Rightarrow>
               (case chainGet title entry of
                  None \<Rightarrow> Some (Inl NotFound)
                | Some song \<Rightarrow> Some (Inr song)))"

text \<open>Unlinking the first entry with the key from a chain.\<close>

fun chainDelete :: "string \<Rightarrow> HashMapEntry list \<Rightarrow> (ref \<times> HashMapEntry list) option" where
  "chainDelete k [] = None"
| "chainDelete k (e # es) =
     (if Key e = k then Some (Value e, es)
      else case chainDelete k es of
             None \<Rightarrow> None
           | Some (v, es') \<Rightarrow> Some (v, e # es'))"

definition Delete :: "string \<Rightarrow> SongHashMap \<Rightarrow> ((error + ref) \<times> SongHashMap) option" where
  "Delete songID shm =
     (if songID = [] then Some (Inl EmptyKey, shm)
      else case bucketAt shm songID of
             None \<Rightarrow> None
           | Some (index, entry) \<Rightarrow>
               (case chainDelete songID entry of
                  None \<Rightarrow> Some (Inl NotFound, shm)
                | Some (song, chain) \<Rightarrow>
                    Some (Inr song, shm\<lparr>Buckets := (Buckets shm)[index := chain],
                                         Size_hm := Size_hm shm - 1\<rparr>)))"

definition Contains :: "string \<Rightarrow> SongHashMap \<Rightarrow> bool option" where
  "Contains songID shm = map_option (\<lambda>r. case r of Inl err \<Rightarrow> False | Inr song \<Rightarrow> True)
                           (Get songID shm)"

fun chainUpdate :: "string \<Rightarrow> ref \<Rightarrow> HashMapEntry list \<Rightarrow> HashMapEntry list option" where
  "chainUpdate k v [] = None"
| "chainUpdate k v (e # es) =
     (if Key e = k then Some (e\<lparr>Value := v\<rparr> # es)
      else map_option (Cons e) (chainUpdate k v es))"

definition UpdateSong :: "store \<Rightarrow> ref \<Rightarrow> SongHashMap \<Rightarrow> (error option \<times> SongHashMap) option" where
  "UpdateSong st song shm =
     (case deref st song of
        None \<Rightarrow> None
      | Some s \<Rightarrow>
          if ID s = [] then Some (Some EmptyKey, shm)
          else case bucketAt shm (ID s) of
                 None \<Rightarrow> None
               | Some (index, entry) \<Rightarrow>
                   (case chainUpdate (ID s) song entry of
                      None \<Rightarrow> Some (Some NotFound, shm)
                    | Some chain \<Rightarrow>
                        Some (None, shm\<lparr>Buckets := (Buckets shm)[index := chain]\<rparr>)))"

definition Clear_hm :: "SongHashMap \<Rightarrow> SongHashMap" where
  "Clear_hm shm = shm\<lparr>Buckets := map (\<lambda>b. []) (Buckets shm), Size_hm := 0\<rparr>"

text \<open>
  The shape of a table built from \<open>NewSongHashMap\<close> with a power-of-two capacity (the
  engine starts both of its tables at 64 and \<open>resize\<close> doubles): one bucket per slot,
  every entry in the bucket of its key's hash, no key twice in a chain, and \<open>Size\<close> the
  number of entries.
\<close>

definition hm_struct :: "SongHashMap \<Rightarrow> bool" where
  "hm_struct shm \<longleftrightarrow>
     (\<exists>j\<le>45. Capacity shm = 2 ^ j)
     \<and> length (Buckets shm) = nat (Capacity shm)
     \<and> (\<forall>i<length (Buckets shm).
           (\<forall>e\<in>set (Buckets shm ! i). hash shm (Key e) = Some (int i))
           \<and> distinct (map Key (Buckets shm ! i)))
     \<and> Size_hm shm = int (length (concat (Buckets shm)))"

text \<open>
  Between two operations the size is bounded as well: a put that fills an empty bucket
  skips the resize check, so \<open>Size\<close> can pass \<open>2 * Capacity\<close>, but by no more than the
  number of non-empty buckets.
\<close>

definition hm_inv :: "SongHashMap \<Rightarrow> bool" where
  "hm_inv shm \<longleftrightarrow>
     hm_struct shm
     \<and> Size_hm shm \<le> 2 * Capacity shm + int (length (filter (\<lambda>b. b \<noteq> []) (Buckets shm)))"

text \<open>What a lookup of the key finds in the table (\<open>None\<close>: no entry, or a panic).\<close>

definition hm_lookup :: "SongHashMap \<Rightarrow> string \<Rightarrow> ref option" where
  "hm_lookup shm k = (case bucketAt shm k of None \<Rightarrow> None | Some (i, chain) \<Rightarrow> chainGet k chain)"

text \<open>A table whose every entry is keyed by the ID of the song it holds.\<close>

definition keyed_by_id :: "store \<Rightarrow> SongHashMap \<Rightarrow> bool" where
  "keyed_by_id st shm \<longleftrightarrow>
     (\<forall>b\<in>set (Buckets shm). \<forall>e\<in>set b.
        Value e < length st \<and> Key e = ID (st ! Value e) \<and> Key e \<noteq> [])"

text \<open>Every value of the table is a song of the store.\<close>

definition vals_ok :: "store \<Rightarrow> SongHashMap \<Rightarrow> bool" where
  "vals_ok st shm \<longleftrightarrow> (\<forall>b\<in>set (Buckets shm). \<forall>e\<in>set b. Value e < length st)"

definition nonempty_count :: "SongHashMap \<Rightarrow> int" where
  "nonempty_count shm = int (length (filter (\<lambda>b. b \<noteq> []) (Buckets shm)))"

section \<open>String functions of the Go library\<close>

text \<open>
  The program calls \<open>strings.TrimSpace\<close>, \<open>strings.ToLower\<close>, \<open>strings.Title\<close>,
  \<open>strings.ReplaceAll\<close> and formats an integer with \<open>%d\<close>. On a string of ASCII bytes
  the first three are what is written out here: the white space of \<open>TrimSpace\<close> is tab,
  line feed, vertical tab, form feed, carriage return and space; \<open>ToLower\<close> maps \<open>A\<close> to
  \<open>Z\<close>; a word of \<open>Title\<close> starts after every character that is not a letter, a digit
  or an underscore. On a string with a byte from \<open>0x80\<close> on, the library decodes UTF-8 and
  consults the Unicode tables (white space, case mappings, letters and digits). The tables
  are not part of the program; what the three functions return on such a string is a
  parameter of the model, the record \<open>unicode\<close>, and whatever is proved holds for every
  value of it.
\<close>

record unicode =
  TrimSpaceU :: "string \<Rightarrow> string"
  ToLowerU :: "string \<Rightarrow> string"
  TitleU :: "string \<Rightarrow> string"

text \<open>A value of the parameter for runs on ASCII text, where it is not consulted.\<close>

definition plainUnicode :: unicode where
  "plainUnicode = \<lparr>TrimSpaceU = (\<lambda>s. s), ToLowerU = (\<lambda>s. s), TitleU = (\<lambda>s. s)\<rparr>"

definition ascii :: "string \<Rightarrow> bool" where
  "ascii s \<longleftrightarrow> (\<forall>c\<in>set s. (of_char c :: nat) < 128)"

definition isSpace :: "char \<Rightarrow> bool" where
  "isSpace c \<longleftrightarrow> (of_char c :: nat) \<in> {9, 10, 11, 12, 13, 32}"

definition isUpper :: "char \<Rightarrow> bool" where
  "isUpper c \<longleftrightarrow> 65 \<le> (of_char c :: nat) \<and> (of_char c :: nat) \<le> 90"

definition isLower :: "char \<Rightarrow> bool" where
  "isLower c \<longleftrightarrow> 97 \<le> (of_char c :: nat) \<and> (of_char c :: nat) \<le> 122"

definition isDigit :: "char \<Rightarrow> bool" where
  "isDigit c \<longleftrightarrow> 48 \<le> (of_char c :: nat) \<and> (of_char c :: nat) \<le> 57"

definition toLowerChar :: "char \<Rightarrow> char" where
  "toLowerChar c = (if isUpper c then char_of (of_char c + (32 :: nat)) else c)"

definition toUpperChar :: "char \<Rightarrow> char" where
  "toUpperChar c = (if isLower c then char_of (of_char c - (32 :: nat)) else c)"

definition TrimSpace :: "unicode \<Rightarrow> string \<Rightarrow> string" where
  "TrimSpace u s =
     (if ascii s then rev (dropWhile isSpace (rev (dropWhile isSpace s))) else TrimSpaceU u s)"

definition ToLower :: "unicode \<Rightarrow> string \<Rightarrow> string" where
  "ToLower u s = (if ascii s then map toLowerChar s else ToLowerU u s)"

definition isSeparator :: "char \<Rightarrow> bool" where
  "isSeparator c \<longleftrightarrow> \<not> (isUpper c \<or> isLower c \<or> isDigit c \<or> c = CHR ''_'')"

text \<open>\<open>Title\<close> maps over the string, remembering the previous character (a space at first).\<close>

fun titleFrom :: "char \<Rightarrow> string \<Rightarrow> string" where
  "titleFrom prev [] = []"
| "titleFrom prev (c # cs) =
     (if isSeparator prev then toUpperChar c else c) # titleFrom c cs"

definition Title_str :: "unicode \<Rightarrow> string \<Rightarrow> string" where
  "Title_str u s = (if ascii s then titleFrom (CHR '' '') s else TitleU u s)"

text \<open>
  \<open>ReplaceAll s " " "-"\<close>, the only use the program makes of it. The space is one byte and
  no byte of a longer UTF-8 sequence equals it, so the replacement is byte by byte.
\<close>

definition ReplaceAll_space_dash :: "string \<Rightarrow> string" where
  "ReplaceAll_space_dash s = map (\<lambda>c. if c = CHR '' '' then CHR ''-'' else c) s"

text \<open>The decimal digits of a natural number and \<open>%d\<close> of an integer.\<close>

fun digitsOf :: "nat \<Rightarrow> string" where
  "digitsOf n = (if n < 10 then [char_of (48 + n)]
                 else digitsOf (n div 10) @ [char_of (48 + n mod 10)])"

declare digitsOf.simps [simp del]

definition formatInt :: "int \<Rightarrow> string" where
  "formatInt i = (if i < 0 then CHR ''-'' # digitsOf (nat (- i)) else digitsOf (nat i))"

section \<open>Grouped ordered index (\<open>SongRatingBST\<close>)\<close>

text \<open>
  A node owns its bucket and its two subtrees; nil is \<open>Leaf\<close>. The songs of a bucket are
  pointers into the store, and the functions that read a song's \<open>ID\<close> or \<open>Rating\<close> take
  the store. In \<open>deleteNode\<close> the Go code lets a node share the bucket of its successor
  until the successor is unlinked by the next statement; no bucket is written in between,
  so the node gets a copy.
\<close>

record RatingBucket =
  Rating_b :: int
  Songs :: "ref list"

datatype BSTNode = Leaf | Node (Bucket: RatingBucket) (Left: BSTNode) (Right: BSTNode)

record SongRatingBST =
  Root :: BSTNode
  NodeCount :: int

definition NewRatingBucket :: "int \<Rightarrow> RatingBucket" where
  "NewRatingBucket rating = \<lparr>Rating_b = rating, Songs = []\<rparr>"

definition AddSong_bucket :: "ref \<Rightarrow> RatingBucket \<Rightarrow> RatingBucket" where
  "AddSong_bucket song rb = rb\<lparr>Songs := Songs rb @ [song]\<rparr>"

text \<open>The index of the first song of the slice with the ID, as the loop of \<open>RemoveSong\<close> finds it.\<close>

fun findIndex :: "store \<Rightarrow> string \<Rightarrow> ref list \<Rightarrow> nat \<Rightarrow> nat option" where
  "findIndex st songID [] i = None"
| "findIndex st songID (song # rest) i =
     (if ID (st ! song) = songID then Some i else findIndex st songID rest (Suc i))"

text \<open>\<open>RemoveSong\<close> overwrites the song found with the last one and cuts the slice by one.\<close>

definition RemoveSong_bucket :: "store \<Rightarrow> string \<Rightarrow> RatingBucket \<Rightarrow> RatingBucket \<times> bool" where
  "RemoveSong_bucket st songID rb =
     (case findIndex st songID (Songs rb) 0 of
        None \<Rightarrow> (rb, False)
      | Some i \<Rightarrow> (rb\<lparr>Songs := butlast ((Songs rb)[i := last (Songs rb)])\<rparr>, True))"

definition IsEmpty_bucket :: "RatingBucket \<Rightarrow> bool" where
  "IsEmpty_bucket rb = (Songs rb = [])"

definition NewSongRatingBST :: SongRatingBST where
  "NewSongRatingBST = \<lparr>Root = Leaf, NodeCount = 0\<rparr>"

text \<open>\<open>insertNode\<close> returns the new subtree and whether it made a node (\<open>NodeCount++\<close>).\<close>

fun insertNode :: "BSTNode \<Rightarrow> ref \<Rightarrow> int \<Rightarrow> BSTNode \<times> bool" where
  "insertNode Leaf song rating =
     (Node (AddSong_bucket song (NewRatingBucket rating)) Leaf Leaf, True)"
| "insertNode (Node b l r) song rating =
     (if rating = Rating_b b then (Node (AddSong_bucket song b) l r, False)
      else if rating < Rating_b b then
        (let (l', made) = insertNode l song rating in (Node b l' r, made))
      else
        (let (r', made) = insertNode r song rating in (Node b l r', made)))"

text \<open>\<open>InsertSong\<close> also sets the song's own rating, in the store.\<close>

definition InsertSong :: "ref \<Rightarrow> int \<Rightarrow> store \<times> SongRatingBST \<Rightarrow> store \<times> SongRatingBST" where
  "InsertSong song rating sb =
     (let (st, bst) = sb in
      if rating < 1 \<or> rating > 5 then (st, bst)
      else
        let st' = st[song := SetRating rating (st ! song)];
            (root, made) = insertNode (Root bst) song rating
        in (st', bst\<lparr>Root := root, NodeCount := (if made then NodeCount bst + 1 else NodeCount bst)\<rparr>))"

fun searchNode :: "BSTNode \<Rightarrow> int \<Rightarrow> BSTNode" where
  "searchNode Leaf rating = Leaf"
| "searchNode (Node b l r) rating =
     (if Rating_b b = rating then Node b l r
      else if rating < Rating_b b then searchNode l rating
      else searchNode r rating)"

definition SearchByRating :: "int \<Rightarrow> SongRatingBST \<Rightarrow> ref list" where
  "SearchByRating rating bst =
     (if rating < 1 \<or> rating > 5 then []
      else case searchNode (Root bst) rating of
             Leaf \<Rightarrow> []
           | Node b l r \<Rightarrow> Songs b)"

fun findSongInSlice :: "store \<Rightarrow> string \<Rightarrow> ref list \<Rightarrow> ref option" where
  "findSongInSlice st songID [] = None"
| "findSongInSlice st songID (song # rest) =
     (if ID (st ! song) = songID then Some song else findSongInSlice st songID rest)"

fun findSongInSubtree :: "store \<Rightarrow> BSTNode \<Rightarrow> string \<Rightarrow> ref option" where
  "findSongInSubtree st Leaf songID = None"
| "findSongInSubtree st (Node b l r) songID =
     (case findSongInSlice st songID (Songs b) of
        Some song \<Rightarrow> Some song
      | None \<Rightarrow>
          (case findSongInSubtree st l songID of
             Some song \<Rightarrow> Some song
           | None \<Rightarrow> findSongInSubtree st r songID))"

definition findSongByID :: "store \<Rightarrow> SongRatingBST \<Rightarrow> string \<Rightarrow> ref option" where
  "findSongByID st bst songID = findSongInSubtree st (Root bst) songID"

fun findMinNode :: "BSTNode \<Rightarrow> RatingBucket \<Rightarrow> RatingBucket" where
  "findMinNode Leaf b = b"
| "findMinNode (Node b' l r) b = findMinNode l b'"

fun deleteNode :: "BSTNode \<Rightarrow> int \<Rightarrow> BSTNode" where
  "deleteNode Leaf rating = Leaf"
| "deleteNode (Node b l r) rating =
     (if rating < Rating_b b then Node b (deleteNode l rating) r
      else if rating > Rating_b b then Node b l (deleteNode r rating)
      else if l = Leaf then r
      else if r = Leaf then l
      else (let successor = (case r of Node b' l' r' \<Rightarrow> findMinNode l' b' | Leaf \<Rightarrow> b)
            in Node successor l (deleteNode r (Rating_b successor))))"

text \<open>
  The bucket of the node that \<open>searchNode\<close> finds is changed in place; in the tree value
  that is the replacement of the bucket along the same search path.
\<close>

fun updateBucket :: "BSTNode \<Rightarrow> int \<Rightarrow> RatingBucket \<Rightarrow> BSTNode" where
  "updateBucket Leaf rating nb = Leaf"
| "updateBucket (Node b l r) rating nb =
     (if Rating_b b = rating then Node nb l r
      else if rating < Rating_b b then Node b (updateBucket l rating nb) r
      else Node b l (updateBucket r rating nb))"

definition DeleteSong_bst :: "store \<Rightarrow> string \<Rightarrow> SongRatingBST \<Rightarrow> SongRatingBST \<times> bool" where
  "DeleteSong_bst st songID bst =
     (case findSongByID st bst songID of
        None \<Rightarrow> (bst, False)
      | Some song \<Rightarrow>
          let rating = Rating (st ! song) in
          (case searchNode (Root bst) rating of
             Leaf \<Rightarrow> (bst, False)
           | Node b l r \<Rightarrow>
               let (b', removed) = RemoveSong_bucket st songID b;
                   root = updateBucket (Root bst) rating b'
               in if removed \<and> IsEmpty_bucket b'
                  then (bst\<lparr>Root := deleteNode root rating, NodeCount := NodeCount bst - 1\<rparr>,
                        removed)
                  else (bst\<lparr>Root := root\<rparr>, removed)))"

fun inorderTraversal :: "BSTNode \<Rightarrow> ref list" where
  "inorderTraversal Leaf = []"
| "inorderTraversal (Node b l r) = inorderTraversal l @ Songs b @ inorderTraversal r"

definition GetAllSongs_bst :: "SongRatingBST \<Rightarrow> ref list" where
  "GetAllSongs_bst bst = inorderTraversal (Root bst)"

definition Clear_bst :: "SongRatingBST \<Rightarrow> SongRatingBST" where
  "Clear_bst bst = bst\<lparr>Root := Leaf, NodeCount := 0\<rparr>"

section \<open>Hierarchical index (\<open>PlaylistExplorerTree\<close>)\<close>

text \<open>
  A node owns its children. The Go \<open>map\<close> from child name to child is an association
  list with one entry per name, in the order the children were added; Go iterates a map
  in no specified order, so only what does not depend on the order of a listing is a
  property of the program. The \<open>Parent\<close> pointer, which only \<open>GetPath\<close> reads, is left
  out.
\<close>

datatype PlaylistTreeNodeType = GenreNode | SubgenreNode | MoodNode | ArtistNode

datatype PlaylistTreeNode =
  PTNode (Name: string) (NodeType: PlaylistTreeNodeType)
         (Children: "(string \<times> PlaylistTreeNode) list") (Songs_t: "ref list")

record TreeStats =
  genres :: int
  subgenres :: int
  moods :: int
  artists :: int

record PlaylistExplorerTree =
  Root_t :: PlaylistTreeNode
  TotalSongs :: int
  Stats :: TreeStats

definition NewPlaylistTreeNode :: "string \<Rightarrow> PlaylistTreeNodeType \<Rightarrow> PlaylistTreeNode" where
  "NewPlaylistTreeNode name nodeType = PTNode name nodeType [] []"

definition GetChild :: "string \<Rightarrow> PlaylistTreeNode \<Rightarrow> PlaylistTreeNode option" where
  "GetChild childName node = map_of (Children node) childName"

text \<open>Writing \<open>Children[childName] = child\<close>: the entry of the name is replaced, or added.\<close>

fun putChild ::
  "string \<Rightarrow> PlaylistTreeNode \<Rightarrow> (string \<times> PlaylistTreeNode) list \<Rightarrow> (string \<times> PlaylistTreeNode) list" where
  "putChild k c [] = [(k, c)]"
| "putChild k c ((k', c') # rest) =
     (if k' = k then (k, c) # rest else (k', c') # putChild k c rest)"

definition setChild :: "string \<Rightarrow> PlaylistTreeNode \<Rightarrow> PlaylistTreeNode \<Rightarrow> PlaylistTreeNode" where
  "setChild childName child node =
     PTNode (Name node) (NodeType node) (putChild childName child (Children node)) (Songs_t node)"

definition AddChild ::
  "string \<Rightarrow> PlaylistTreeNodeType \<Rightarrow> PlaylistTreeNode \<Rightarrow> PlaylistTreeNode \<times> PlaylistTreeNode" where
  "AddChild childName childType node =
     (case GetChild childName node of
        Some child \<Rightarrow> (node, child)
      | None \<Rightarrow>
          (setChild childName (NewPlaylistTreeNode childName childType) node,
           NewPlaylistTreeNode childName childType))"

definition GetChildrenNames :: "PlaylistTreeNode \<Rightarrow> string list" where
  "GetChildrenNames node = map fst (Children node)"

definition AddSong_node :: "ref \<Rightarrow> PlaylistTreeNode \<Rightarrow> PlaylistTreeNode" where
  "AddSong_node song node =
     (if NodeType node = ArtistNode
      then PTNode (Name node) (NodeType node) (Children node) (Songs_t node @ [song])
      else node)"

definition NewPlaylistExplorerTree :: PlaylistExplorerTree where
  "NewPlaylistExplorerTree =
     \<lparr>Root_t = NewPlaylistTreeNode ''Root'' GenreNode, TotalSongs = 0,
      Stats = \<lparr>genres = 0, subgenres = 0, moods = 0, artists = 0\<rparr>\<rparr>"

definition normalize :: "unicode \<Rightarrow> string \<Rightarrow> string" where
  "normalize u s = Title_str u (ToLower u (TrimSpace u s))"

text \<open>
  One level of the walk of \<open>AddSong\<close>: the child to go on with (the existing one, or the
  one \<open>AddChild\<close> makes) and whether it was made.
\<close>

definition childFor ::
  "string \<Rightarrow> PlaylistTreeNodeType \<Rightarrow> PlaylistTreeNode \<Rightarrow> PlaylistTreeNode \<times> bool" where
  "childFor childName childType node =
     (case GetChild childName node of
        Some child \<Rightarrow> (child, False)
      | None \<Rightarrow> (snd (AddChild childName childType node), True))"

text \<open>
  \<open>AddSong\<close> walks down four levels, making the missing nodes, and appends the song at
  the artist node; the nodes are objects changed in place, so every node on the path
  holds the changed child afterwards.
\<close>

definition AddSong_tree ::
  "unicode \<Rightarrow> store \<Rightarrow> ref \<Rightarrow> PlaylistExplorerTree \<Rightarrow> PlaylistExplorerTree" where
  "AddSong_tree u st song pet =
     (let s = st ! song;
          genre = normalize u (Genre s);
          subgenre = normalize u (SubGenre s);
          mood = normalize u (Mood s);
          artist = normalize u (Artist s);
          genre = (if genre = [] then ''Unknown Genre'' else genre);
          subgenre = (if subgenre = [] then ''Unknown Subgenre'' else subgenre);
          mood = (if mood = [] then ''Unknown Mood'' else mood);
          artist = (if artist = [] then ''Unknown Artist'' else artist);
          (genreNode, g) = childFor genre GenreNode (Root_t pet);
          (subgenreNode, sg) = childFor subgenre SubgenreNode genreNode;
          (moodNode, m) = childFor mood MoodNode subgenreNode;
          (artistNode, a) = childFor artist ArtistNode moodNode;
          artistNode = AddSong_node song artistNode;
          moodNode = setChild artist artistNode moodNode;
          subgenreNode = setChild mood moodNode subgenreNode;
          genreNode = setChild subgenre subgenreNode genreNode;
          root = setChild genre genreNode (Root_t pet);
          stats = Stats pet;
          stats = (if g then stats\<lparr>genres := genres stats + 1\<rparr> else stats);
          stats = (if sg then stats\<lparr>subgenres := subgenres stats + 1\<rparr> else stats);
          stats = (if m then stats\<lparr>moods := moods stats + 1\<rparr> else stats);
          stats = (if a then stats\<lparr>artists := artists stats + 1\<rparr> else stats)
      in pet\<lparr>Root_t := root, TotalSongs := TotalSongs pet + 1, Stats := stats\<rparr>)"

definition GetGenres :: "PlaylistExplorerTree \<Rightarrow> string list" where
  "GetGenres pet = GetChildrenNames (Root_t pet)"

definition GetSubgenres :: "string \<Rightarrow> PlaylistExplorerTree \<Rightarrow> string list" where
  "GetSubgenres genre pet =
     (case GetChild genre (Root_t pet) of
        None \<Rightarrow> []
      | Some genreNode \<Rightarrow> GetChildrenNames genreNode)"

definition GetMoods :: "string \<Rightarrow> string \<Rightarrow> PlaylistExplorerTree \<Rightarrow> string list" where
  "GetMoods genre subgenre pet =
     (case GetChild genre (Root_t pet) of
        None \<Rightarrow> []
      | Some genreNode \<Rightarrow>
          (case GetChild subgenre genreNode of
             None \<Rightarrow> []
           | Some subgenreNode \<Rightarrow> GetChildrenNames subgenreNode))"

definition GetArtists :: "string \<Rightarrow> string \<Rightarrow> string \<Rightarrow> PlaylistExplorerTree \<Rightarrow> string list" where
  "GetArtists genre subgenre mood pet =
     (case GetChild genre (Root_t pet) of
        None \<Rightarrow> []
      | Some genreNode \<Rightarrow>
          (case GetChild subgenre genreNode of
             None \<Rightarrow> []
           | Some subgenreNode \<Rightarrow>
               (case GetChild mood subgenreNode of
                  None \<Rightarrow> []
                | Some moodNode \<Rightarrow> GetChildrenNames moodNode)))"

definition GetSongs_tree ::
  "string \<Rightarrow> string \<Rightarrow> string \<Rightarrow> string \<Rightarrow> PlaylistExplorerTree \<Rightarrow> ref list" where
  "GetSongs_tree genre subgenre mood artist pet =
     (case GetChild genre (Root_t pet) of
        None \<Rightarrow> []
      | Some genreNode \<Rightarrow>
          (case GetChild subgenre genreNode of
             None \<Rightarrow> []
           | Some subgenreNode \<Rightarrow>
               (case GetChild mood subgenreNode of
                  None \<Rightarrow> []
                | Some moodNode \<Rightarrow>
                    (case GetChild artist moodNode of
                       None \<Rightarrow> []
                     | Some artistNode \<Rightarrow> Songs_t artistNode))))"

text \<open>Cutting the first song with the ID out of a slice, keeping the order of the rest.\<close>

fun removeFirst :: "store \<Rightarrow> string \<Rightarrow> ref list \<Rightarrow> ref list \<times> bool" where
  "removeFirst st songID [] = ([], False)"
| "removeFirst st songID (song # rest) =
     (if ID (st ! song) = songID then (rest, True)
      else let (rest', removed) = removeFirst st songID rest in (song # rest', removed))"

text \<open>
  The depth-first visit of \<open>RemoveSong\<close>: a node, then its children one after the other;
  \<open>removed\<close> is the flag the visits share.
\<close>

fun removeVisit :: "store \<Rightarrow> string \<Rightarrow> PlaylistTreeNode \<Rightarrow> bool \<Rightarrow> PlaylistTreeNode \<times> bool"
  and removeVisitAll ::
    "store \<Rightarrow> string \<Rightarrow> (string \<times> PlaylistTreeNode) list \<Rightarrow> bool
       \<Rightarrow> (string \<times> PlaylistTreeNode) list \<times> bool" where
  "removeVisit st songID (PTNode n t ch ss) removed =
     (let (ss', removed1) =
            (if t = ArtistNode \<and> \<not> removed
             then (let (ss', found) = removeFirst st songID ss in (ss', found))
             else (ss, removed));
          (ch', removed2) = removeVisitAll st songID ch removed1
      in (PTNode n t ch' ss', removed2))"
| "removeVisitAll st songID [] removed = ([], removed)"
| "removeVisitAll st songID (kc # rest) removed =
     (let (c', removed1) = removeVisit st songID (snd kc) removed;
          (rest', removed2) = removeVisitAll st songID rest removed1
      in ((fst kc, c') # rest', removed2))"

definition RemoveSong_tree ::
  "store \<Rightarrow> string \<Rightarrow> PlaylistExplorerTree \<Rightarrow> error option \<times> PlaylistExplorerTree" where
  "RemoveSong_tree st songID pet =
     (let (root, removed) = removeVisit st songID (Root_t pet) False
      in if removed then (None, pet\<lparr>Root_t := root, TotalSongs := TotalSongs pet - 1\<rparr>)
         else (Some NotFound, pet\<lparr>Root_t := root\<rparr>))"

section \<open>Sorting (\<open>PlaylistSorter\<close>)\<close>

datatype SortCriteria =
    SortByTitle
  | SortByArtist
  | SortByDurationAsc
  | SortByDurationDesc
  | SortByRecentlyAdded
  | SortByOldestAdded
  | SortByRating
  | SortByPlayCount

text \<open>Subtraction of two Go \<open>int\<close>s wraps around at 64 bits.\<close>

definition wrap64 :: "int \<Rightarrow> int" where
  "wrap64 x = (x + 2 ^ 63) mod 2 ^ 64 - 2 ^ 63"

text \<open>\<open>strings.Compare\<close>: the lexicographic order of the bytes, as \<open>-1\<close>, \<open>0\<close> or \<open>1\<close>.\<close>

fun strCompare :: "string \<Rightarrow> string \<Rightarrow> int" where
  "strCompare [] [] = 0"
| "strCompare [] (y # ys) = - 1"
| "strCompare (x # xs) [] = 1"
| "strCompare (x # xs) (y # ys) =
     (if (of_char x :: nat) < of_char y then - 1
      else if (of_char y :: nat) < of_char x then 1
      else strCompare xs ys)"

definition compareTitle :: "unicode \<Rightarrow> Song \<Rightarrow> Song \<Rightarrow> int" where
  "compareTitle u song1 song2 =
     strCompare (ToLower u (Title song1)) (ToLower u (Title song2))"

definition compare :: "unicode \<Rightarrow> SortCriteria \<Rightarrow> Song \<Rightarrow> Song \<Rightarrow> int" where
  "compare u criteria song1 song2 =
     (case criteria of
        SortByTitle \<Rightarrow> compareTitle u song1 song2
      | SortByArtist \<Rightarrow>
          (let artistCmp = strCompare (ToLower u (Artist song1)) (ToLower u (Artist song2))
           in if artistCmp = 0 then compareTitle u song1 song2 else artistCmp)
      | SortByDurationAsc \<Rightarrow> wrap64 (Duration song1 - Duration song2)
      | SortByDurationDesc \<Rightarrow> wrap64 (Duration song2 - Duration song1)
      | SortByRecentlyAdded \<Rightarrow>
          (if AddedAt song1 > AddedAt song2 then - 1
           else if AddedAt song1 < AddedAt song2 then 1 else 0)
      | SortByOldestAdded \<Rightarrow>
          (if AddedAt song1 < AddedAt song2 then - 1
           else if AddedAt song1 > AddedAt song2 then 1 else 0)
      | SortByRating \<Rightarrow>
          (let ratingDiff = wrap64 (Rating song2 - Rating song1)
           in if ratingDiff = 0 then compareTitle u song1 song2 else ratingDiff)
      | SortByPlayCount \<Rightarrow>
          (let playCountDiff = wrap64 (PlayCount song2 - PlayCount song1)
           in if playCountDiff = 0 then compareTitle u song1 song2 else playCountDiff))"

text \<open>
  The sort functions work on a slice of song pointers and compare the songs they point
  to; \<open>cmp\<close> below is \<open>\<lambda>a b. compare u criteria (st ! a) (st ! b)\<close>. Slices are lists,
  \<open>songs[i] = x\<close> is a list update. Every index the functions use lies within the slice
  (the calls start from \<open>0\<close> and \<open>len - 1\<close>), so no access panics.
\<close>

definition swap :: "nat \<Rightarrow> nat \<Rightarrow> 'a list \<Rightarrow> 'a list" where
  "swap i j xs = xs[i := xs ! j, j := xs ! i]"

subsection \<open>Merge sort\<close>

text \<open>The three loops of \<open>merge\<close>, writing to \<open>songs[k]\<close>.\<close>

function mergeBoth ::
  "('a \<Rightarrow> 'a \<Rightarrow> int) \<Rightarrow> 'a list \<Rightarrow> 'a list \<Rightarrow> 'a list \<Rightarrow> nat \<Rightarrow> nat \<Rightarrow> nat
     \<Rightarrow> 'a list \<times> nat \<times> nat \<times> nat" where
  "mergeBoth cmp songs leftArray rightArray i j k =
     (if i < length leftArray \<and> j < length rightArray
      then if cmp (leftArray ! i) (rightArray ! j) \<le> 0
           then mergeBoth cmp (songs[k := leftArray ! i]) leftArray rightArray (i + 1) j (k + 1)
           else mergeBoth cmp (songs[k := rightArray ! j]) leftArray rightArray i (j + 1) (k + 1)
      else (songs, i, j, k))"
  by pat_completeness auto
termination
  by (relation "measure (\<lambda>(cmp, songs, l, r, i, j, k). (length l - i) + (length r - j))") auto

declare mergeBoth.simps [simp del]

function copyRest :: "'a list \<Rightarrow> 'a list \<Rightarrow> nat \<Rightarrow> nat \<Rightarrow> 'a list \<times> nat" where
  "copyRest songs array i k =
     (if i < length array then copyRest (songs[k := array ! i]) array (i + 1) (k + 1)
      else (songs, k))"
  by pat_completeness auto
termination
  by (relation "measure (\<lambda>(songs, a, i, k). length a - i)") auto

declare copyRest.simps [simp del]

definition merge :: "('a \<Rightarrow> 'a \<Rightarrow> int) \<Rightarrow> 'a list \<Rightarrow> nat \<Rightarrow> nat \<Rightarrow> nat \<Rightarrow> 'a list" where
  "merge cmp songs left mid right =
     (let leftSize = mid - left + 1;
          rightSize = right - mid;
          leftArray = map (\<lambda>i. songs ! (left + i)) [0..<leftSize];
          rightArray = map (\<lambda>j. songs ! (mid + 1 + j)) [0..<rightSize];
          (songs1, i, j, k) = mergeBoth cmp songs leftArray rightArray 0 0 left;
          (songs2, k2) = copyRest songs1 leftArray i k;
          (songs3, k3) = copyRest songs2 rightArray j k2
      in songs3)"

function mergeSortHelper :: "('a \<Rightarrow> 'a \<Rightarrow> int) \<Rightarrow> 'a list \<Rightarrow> nat \<Rightarrow> nat \<Rightarrow> 'a list" where
  "mergeSortHelper cmp songs left right =
     (if left < right
      then (let mid = left + (right - left) div 2;
                songs1 = mergeSortHelper cmp songs left mid;
                songs2 = mergeSortHelper cmp songs1 (mid + 1) right
            in merge cmp songs2 left mid right)
      else songs)"
  by pat_completeness auto
termination
  by (relation "measure (\<lambda>(cmp, songs, l, r). r - l)") auto

declare mergeSortHelper.simps [simp del]

definition MergeSort :: "('a \<Rightarrow> 'a \<Rightarrow> int) \<Rightarrow> 'a list \<Rightarrow> 'a list" where
  "MergeSort cmp songs =
     (if length songs \<le> 1 then songs else mergeSortHelper cmp songs 0 (length songs - 1))"

subsection \<open>Quick sort\<close>

text \<open>
  The loop of \<open>partition\<close> over \<open>j\<close>; \<open>i\<close> starts at \<open>low - 1\<close> and may be \<open>-1\<close>, and
  \<open>quickSortHelper\<close> is called with \<open>high = -1\<close>, so these indices are integers.
\<close>

function partitionLoop ::
  "('a \<Rightarrow> 'a \<Rightarrow> int) \<Rightarrow> 'a list \<Rightarrow> 'a \<Rightarrow> int \<Rightarrow> int \<Rightarrow> int \<Rightarrow> 'a list \<times> int" where
  "partitionLoop cmp songs pivot i j high =
     (if j < high
      then if cmp (songs ! nat j) pivot \<le> 0
           then partitionLoop cmp (swap (nat (i + 1)) (nat j) songs) pivot (i + 1) (j + 1) high
           else partitionLoop cmp songs pivot i (j + 1) high
      else (songs, i))"
  by pat_completeness auto
termination
  by (relation "measure (\<lambda>(cmp, songs, pivot, i, j, high). nat (high - j))") auto

declare partitionLoop.simps [simp del]

definition partition :: "('a \<Rightarrow> 'a \<Rightarrow> int) \<Rightarrow> 'a list \<Rightarrow> int \<Rightarrow> int \<Rightarrow> 'a list \<times> int" where
  "partition cmp songs low high =
     (let pivot = songs ! nat high;
          (songs1, i) = partitionLoop cmp songs pivot (low - 1) low high
      in (swap (nat (i + 1)) (nat high) songs1, i + 1))"

function quickSortHelper :: "('a \<Rightarrow> 'a \<Rightarrow> int) \<Rightarrow> 'a list \<Rightarrow> int \<Rightarrow> int \<Rightarrow> 'a list" where
  "quickSortHelper cmp songs low high =
     (if low < high
      then (let p = partition cmp songs low high;
                songs2 = quickSortHelper cmp (fst p) low (snd p - 1)
            in quickSortHelper cmp songs2 (snd p + 1) high)
      else songs)"
  by pat_completeness auto
termination
proof -
  have loop: "i < j \<Longrightarrow> i \<le> snd (partitionLoop cmp songs pivot i j high)
                \<and> snd (partitionLoop cmp songs pivot i j high) < max j high"
    for cmp :: "'a \<Rightarrow> 'a \<Rightarrow> int" and songs pivot i j high
  proof (induction cmp songs pivot i j high rule: partitionLoop.induct)
    case (1 cmp songs pivot i j high)
    show ?case
    proof (cases "j < high")
      case False
      then have "partitionLoop cmp songs pivot i j high = (songs, i)"
        by (subst partitionLoop.simps) simp
      with 1(3) show ?thesis by simp
    next
      case True
      show ?thesis
      proof (cases "cmp (songs ! nat j) pivot \<le> 0")
        case le: True
        have "i + 1 < j + 1" using 1(3) by simp
        from 1(1) [OF True le this]
        have "i + 1 \<le> snd (partitionLoop cmp (swap (nat (i + 1)) (nat j) songs) pivot (i + 1) (j + 1) high)"
          "snd (partitionLoop cmp (swap (nat (i + 1)) (nat j) songs) pivot (i + 1) (j + 1) high) < max (j + 1) high"
          by simp_all
        moreover have "partitionLoop cmp songs pivot i j high
            = partitionLoop cmp (swap (nat (i + 1)) (nat j) songs) pivot (i + 1) (j + 1) high"
          using True le by (subst partitionLoop.simps) simp
        ultimately show ?thesis using True by simp
      next
        case gt: False
        have "i < j + 1" using 1(3) by simp
        from 1(2) [OF True gt this]
        have "i \<le> snd (partitionLoop cmp songs pivot i (j + 1) high)"
          "snd (partitionLoop cmp songs pivot i (j + 1) high) < max (j + 1) high"
          by simp_all
        moreover have "partitionLoop cmp songs pivot i j high
            = partitionLoop cmp songs pivot i (j + 1) high"
          using True gt by (subst partitionLoop.simps) simp
        ultimately show ?thesis using True by simp
      qed
    qed
  qed
  have part: "low < high \<Longrightarrow> low \<le> snd (partition cmp songs low high)
                \<and> snd (partition cmp songs low high) \<le> high"
    for cmp :: "'a \<Rightarrow> 'a \<Rightarrow> int" and songs low high
    using loop [of "low - 1" low cmp songs "songs ! nat high" high]
    by (auto simp: partition_def Let_def split: prod.splits)
  show ?thesis
  proof (relation "measure (\<lambda>(cmp, songs, low, high). nat (high - low))")
    show "wf (measure (\<lambda>(cmp :: 'a \<Rightarrow> 'a \<Rightarrow> int, songs :: 'a list, low, high). nat (high - low)))"
      by simp
  next
    fix cmp :: "'a \<Rightarrow> 'a \<Rightarrow> int" and songs low high x
    assume "low < high" "x = partition cmp songs low high"
    with part [of low high cmp songs]
    show "((cmp, fst x, low, snd x - 1), cmp, songs, low, high)
            \<in> measure (\<lambda>(cmp, songs, low, high). nat (high - low))"
      by simp
  next
    fix cmp :: "'a \<Rightarrow> 'a \<Rightarrow> int" and songs low high x xa
    assume "low < high" "x = partition cmp songs low high"
    with part [of low high cmp songs]
    show "((cmp, xa, snd x + 1, high), cmp, songs, low, high)
            \<in> measure (\<lambda>(cmp, songs, low, high). nat (high - low))"
      by simp
  qed
qed

declare quickSortHelper.simps [simp del]

subsection \<open>Heap sort\<close>

function heapify :: "('a \<Rightarrow> 'a \<Rightarrow> int) \<Rightarrow> 'a list \<Rightarrow> nat \<Rightarrow> nat \<Rightarrow> 'a list" where
  "heapify cmp songs n i =
     (let left = 2 * i + 1;
          right = 2 * i + 2;
          largest = (if left < n \<and> cmp (songs ! left) (songs ! i) > 0 then left else i);
          largest = (if right < n \<and> cmp (songs ! right) (songs ! largest) > 0 then right
                     else largest)
      in if largest \<noteq> i then heapify cmp (swap i largest songs) n largest else songs)"
  by pat_completeness auto
termination
  by (relation "measure (\<lambda>(cmp, songs, n, i). n - i)") (auto split: if_splits)

declare heapify.simps [simp del]

text \<open>The loop that builds the heap: \<open>i\<close> runs from \<open>n/2 - 1\<close> down to \<open>0\<close>.\<close>

function buildHeapLoop :: "('a \<Rightarrow> 'a \<Rightarrow> int) \<Rightarrow> 'a list \<Rightarrow> nat \<Rightarrow> int \<Rightarrow> 'a list" where
  "buildHeapLoop cmp songs n i =
     (if i \<ge> 0 then buildHeapLoop cmp (heapify cmp songs n (nat i)) n (i - 1) else songs)"
  by pat_completeness auto
termination
  by (relation "measure (\<lambda>(cmp, songs, n, i). nat (i + 1))") auto

declare buildHeapLoop.simps [simp del]

text \<open>The loop that moves the root to the end and restores the heap on the rest.\<close>

function extractLoop :: "('a \<Rightarrow> 'a \<Rightarrow> int) \<Rightarrow> 'a list \<Rightarrow> nat \<Rightarrow> 'a list" where
  "extractLoop cmp songs i =
     (if i > 0 then extractLoop cmp (heapify cmp (swap 0 i songs) i 0) (i - 1) else songs)"
  by pat_completeness auto
termination
  by (relation "measure (\<lambda>(cmp, songs, i). i)") auto

declare extractLoop.simps [simp del]

definition QuickSort :: "('a \<Rightarrow> 'a \<Rightarrow> int) \<Rightarrow> 'a list \<Rightarrow> 'a list" where
  "QuickSort cmp songs =
     (if length songs \<le> 1 then songs
      else quickSortHelper cmp songs 0 (int (length songs) - 1))"

definition HeapSort :: "('a \<Rightarrow> 'a \<Rightarrow> int) \<Rightarrow> 'a list \<Rightarrow> 'a list" where
  "HeapSort cmp songs =
     (if length songs \<le> 1 then songs
      else let n = length songs;
               result = buildHeapLoop cmp songs n (int n div 2 - 1)
           in extractLoop cmp result (n - 1))"

text \<open>The sorter compares the songs the pointers refer to.\<close>

definition songCompare :: "unicode \<Rightarrow> store \<Rightarrow> SortCriteria \<Rightarrow> ref \<Rightarrow> ref \<Rightarrow> int" where
  "songCompare u st criteria a b = compare u criteria (st ! a) (st ! b)"

section \<open>The engine (\<open>PlaylistEngine\<close>)\<close>

text \<open>
  The engine owns one instance of each structure and the store of the songs they point
  to. The clock readings of an operation are parameters. An operation returns \<open>None\<close>
  where the Go call does not return (a panic inside a structure).
\<close>

record PlaylistEngine =
  songStore :: store
  currentPlaylist :: DoublyLinkedList
  playbackHistory :: PlaybackHistoryStack
  ratingTree :: SongRatingBST
  songLookup :: SongHashMap
  titleLookup :: SongHashMap
  playlistTree :: PlaylistExplorerTree
  sorter :: SortCriteria
  playlistName :: string
  totalPlayTime :: int
  createdAt :: int

definition NewPlaylistEngine :: "int \<Rightarrow> string \<Rightarrow> PlaylistEngine" where
  "NewPlaylistEngine now name =
     \<lparr>songStore = [],
      currentPlaylist = NewDoublyLinkedList,
      playbackHistory = NewPlaybackHistoryStack 100,
      ratingTree = NewSongRatingBST,
      songLookup = NewSongHashMap 64,
      titleLookup = NewSongHashMap 64,
      playlistTree = NewPlaylistExplorerTree,
      sorter = SortByTitle,
      playlistName = name,
      totalPlayTime = 0,
      createdAt = now\<rparr>"

definition generateSongID :: "unicode \<Rightarrow> int \<Rightarrow> string \<Rightarrow> string \<Rightarrow> string" where
  "generateSongID u nanos title artist =
     ReplaceAll_space_dash (ToLower u title) @ ''-'' @ ReplaceAll_space_dash (ToLower u artist)
       @ ''-'' @ formatInt nanos"

text \<open>
  \<open>AddSong\<close>. The song object is allocated before the duplicate check; on the duplicate
  path nothing points to it, and the store, which holds the songs of the engine, is left
  as it is.
\<close>

definition AddSong ::
  "unicode \<Rightarrow> int \<Rightarrow> int \<Rightarrow> string \<Rightarrow> string \<Rightarrow> string \<Rightarrow> string \<Rightarrow> string \<Rightarrow> string \<Rightarrow> int \<Rightarrow> int
     \<Rightarrow> PlaylistEngine \<Rightarrow> (error option \<times> PlaylistEngine) option" where
  "AddSong u nanos now title artist album genre subgenre mood duration bpm pe =
     (if TrimSpace u title = [] \<or> TrimSpace u artist = [] then Some (Some TitleArtistRequired, pe)
      else
        let songID = generateSongID u nanos title artist;
            song = length (songStore pe);
            st = songStore pe @ [NewSong now songID title artist album genre subgenre mood duration bpm]
        in case Contains songID (songLookup pe) of
             None \<Rightarrow> None
           | Some True \<Rightarrow> Some (Some AlreadyExists, pe)
           | Some False \<Rightarrow>
               (case AddSong_dll song (currentPlaylist pe) of
                  None \<Rightarrow> None
                | Some dll \<Rightarrow>
                    (case Put st song (songLookup pe) of
                       None \<Rightarrow> None
                     | Some slk \<Rightarrow>
                         (case PutByTitle st song (titleLookup pe) of
                            None \<Rightarrow> None
                          | Some tlk \<Rightarrow>
                              (let pt = AddSong_tree u st song (playlistTree pe);
                                   (st', rt) = (if Rating (st ! song) > 0
                                                then InsertSong song (Rating (st ! song))
                                                       (st, ratingTree pe)
                                                else (st, ratingTree pe))
                               in Some (None,
                                    pe\<lparr>songStore := st', currentPlaylist := dll, songLookup := slk,
                                       titleLookup := tlk, playlistTree := pt, ratingTree := rt,
                                       totalPlayTime := wrap64 (totalPlayTime pe + duration)\<rparr>))))))"

definition DeleteSong ::
  "int \<Rightarrow> PlaylistEngine \<Rightarrow> ((error + ref) \<times> PlaylistEngine) option" where
  "DeleteSong index pe =
     (case DeleteSong_dll index (currentPlaylist pe) of
        None \<Rightarrow> None
      | Some (Inl err, dll) \<Rightarrow> Some (Inl err, pe\<lparr>currentPlaylist := dll\<rparr>)
      | Some (Inr song, dll) \<Rightarrow>
          (let st = songStore pe; s = st ! song in
           case Delete (ID s) (songLookup pe) of
             None \<Rightarrow> None
           | Some (r, slk) \<Rightarrow>
               (let rt = (if Rating s > 0 then fst (DeleteSong_bst st (ID s) (ratingTree pe))
                          else ratingTree pe);
                    pt = snd (RemoveSong_tree st (ID s) (playlistTree pe))
                in Some (Inr song,
                     pe\<lparr>currentPlaylist := dll, songLookup := slk, ratingTree := rt,
                        playlistTree := pt,
                        totalPlayTime := wrap64 (totalPlayTime pe - Duration s)\<rparr>))))"

definition MoveSong :: "int \<Rightarrow> int \<Rightarrow> PlaylistEngine \<Rightarrow> (error option \<times> PlaylistEngine) option" where
  "MoveSong fromIndex toIndex pe =
     map_option (\<lambda>(err, dll). (err, pe\<lparr>currentPlaylist := dll\<rparr>))
       (MoveSong_dll fromIndex toIndex (currentPlaylist pe))"

definition ReversePlaylist :: "PlaylistEngine \<Rightarrow> PlaylistEngine option" where
  "ReversePlaylist pe =
     map_option (\<lambda>dll. pe\<lparr>currentPlaylist := dll\<rparr>) (ReversePlaylist_dll (currentPlaylist pe))"

definition PlaySong ::
  "int \<Rightarrow> int \<Rightarrow> PlaylistEngine \<Rightarrow> ((error + ref) \<times> PlaylistEngine) option" where
  "PlaySong now index pe =
     (case GetSong_dll index (currentPlaylist pe) of
        None \<Rightarrow> None
      | Some (Inl err) \<Rightarrow> Some (Inl err, pe)
      | Some (Inr song) \<Rightarrow>
          (let st = (songStore pe)[song := Play now (songStore pe ! song)] in
           case Push song (playbackHistory pe) of
             None \<Rightarrow> None
           | Some ph \<Rightarrow>
               (case UpdateSong st song (songLookup pe) of
                  None \<Rightarrow> None
                | Some (e1, slk) \<Rightarrow>
                    (case UpdateSong st song (titleLookup pe) of
                       None \<Rightarrow> None
                     | Some (e2, tlk) \<Rightarrow>
                         Some (Inr song,
                           pe\<lparr>songStore := st, playbackHistory := ph, songLookup := slk,
                              titleLookup := tlk\<rparr>)))))"

definition UndoLastPlay ::
  "PlaylistEngine \<Rightarrow> ((error + ref) \<times> PlaylistEngine) option" where
  "UndoLastPlay pe =
     (case UndoLastPlay_stack (playbackHistory pe) of
        None \<Rightarrow> None
      | Some (Inl err) \<Rightarrow> Some (Inl err, pe)
      | Some (Inr (song, ph)) \<Rightarrow> Some (Inr song, pe\<lparr>playbackHistory := ph\<rparr>))"

definition RateSong ::
  "string \<Rightarrow> int \<Rightarrow> PlaylistEngine \<Rightarrow> (error option \<times> PlaylistEngine) option" where
  "RateSong songID rating pe =
     (if rating < 1 \<or> rating > 5 then Some (Some RatingOutOfRange, pe)
      else case Get songID (songLookup pe) of
             None \<Rightarrow> None
           | Some (Inl err) \<Rightarrow> Some (Some NotFound, pe)
           | Some (Inr song) \<Rightarrow>
               (let st = songStore pe;
                    oldRating = Rating (st ! song);
                    rt = (if oldRating > 0 then fst (DeleteSong_bst st songID (ratingTree pe))
                          else ratingTree pe);
                    st1 = st[song := SetRating rating (st ! song)];
                    (st2, rt2) = InsertSong song rating (st1, rt)
                in case UpdateSong st2 song (songLookup pe) of
                     None \<Rightarrow> None
                   | Some (e1, slk) \<Rightarrow>
                       (case UpdateSong st2 song (titleLookup pe) of
                          None \<Rightarrow> None
                        | Some (e2, tlk) \<Rightarrow>
                            Some (None, pe\<lparr>songStore := st2, ratingTree := rt2, songLookup := slk,
                                           titleLookup := tlk\<rparr>))))"

definition SearchSongByID :: "string \<Rightarrow> PlaylistEngine \<Rightarrow> (error + ref) option" where
  "SearchSongByID songID pe = Get songID (songLookup pe)"

definition SearchSongByTitle :: "string \<Rightarrow> PlaylistEngine \<Rightarrow> (error + ref) option" where
  "SearchSongByTitle title pe = GetByTitle title (titleLookup pe)"

definition GetSongsByRating :: "int \<Rightarrow> PlaylistEngine \<Rightarrow> ref list" where
  "GetSongsByRating rating pe = SearchByRating rating (ratingTree pe)"

definition GetCurrentPlaylist :: "PlaylistEngine \<Rightarrow> ref list option" where
  "GetCurrentPlaylist pe = ToSlice_dll (currentPlaylist pe)"





section \<open>Abstraction of the rating tree\<close>

text \<open>
  The buckets of a tree, its ratings, the search-tree order on the ratings, and the map
  from a rating to the songs of the bucket that \<open>searchNode\<close> finds for it.
\<close>

fun buckets :: "BSTNode \<Rightarrow> RatingBucket set" where
  "buckets Leaf = {}"
| "buckets (Node b l r) = insert b (buckets l \<union> buckets r)"

definition keys :: "BSTNode \<Rightarrow> int set" where
  "keys t = Rating_b ` buckets t"

fun bst_sorted :: "BSTNode \<Rightarrow> bool" where
  "bst_sorted Leaf = True"
| "bst_sorted (Node b l r) \<longleftrightarrow>
     bst_sorted l \<and> bst_sorted r
     \<and> (\<forall>x\<in>buckets l. Rating_b x < Rating_b b) \<and> (\<forall>x\<in>buckets r. Rating_b b < Rating_b x)"

definition bmap :: "BSTNode \<Rightarrow> int \<Rightarrow> ref list option" where
  "bmap t rating = (case searchNode t rating of Leaf \<Rightarrow> None | Node b l r \<Rightarrow> Some (Songs b))"

text \<open>
  The rating tree against the store and the set of songs of the playlist: the tree is a
  search tree, every bucket that a search finds has a rating from 1 to 5 and holds, once
  each, songs of the playlist whose rating is the bucket's, and every rated song of the
  playlist is in the bucket of its rating.
\<close>

definition rating_inv :: "store \<Rightarrow> ref set \<Rightarrow> BSTNode \<Rightarrow> bool" where
  "rating_inv st X t \<longleftrightarrow>
     bst_sorted t
     \<and> (\<forall>q ss. bmap t q = Some ss \<longrightarrow>
           1 \<le> q \<and> q \<le> 5 \<and> distinct ss \<and> (\<forall>s\<in>set ss. s \<in> X \<and> Rating (st ! s) = q))
     \<and> (\<forall>s\<in>X. 0 < Rating (st ! s) \<longrightarrow> (\<exists>ss. bmap t (Rating (st ! s)) = Some ss \<and> s \<in> set ss))"

section \<open>The states of the engine\<close>

text \<open>
  What holds of the engine between two operations, for the list \<open>as\<close> of the nodes of
  the playlist: the playlist is a well-formed list; its songs are distinct, allocated and
  have an ID; the by-id table is well formed, keyed by the IDs of its songs, and maps an
  ID to a song exactly when the song is in the playlist under that ID; the rating tree
  agrees with the ratings of the songs of the playlist.
\<close>

definition engine_inv_at :: "PlaylistEngine \<Rightarrow> nat list \<Rightarrow> bool" where
  "engine_inv_at pe as \<longleftrightarrow>
     dll_inv (currentPlaylist pe) as
     \<and> distinct (songs_of (currentPlaylist pe) as)
     \<and> (\<forall>s\<in>set (songs_of (currentPlaylist pe) as).
           s < length (songStore pe) \<and> ID (songStore pe ! s) \<noteq> [])
     \<and> hm_inv (songLookup pe)
     \<and> keyed_by_id (songStore pe) (songLookup pe)
     \<and> (\<forall>k s. hm_lookup (songLookup pe) k = Some s \<longleftrightarrow>
                 s \<in> set (songs_of (currentPlaylist pe) as) \<and> ID (songStore pe ! s) = k)
     \<and> rating_inv (songStore pe) (set (songs_of (currentPlaylist pe) as)) (Root (ratingTree pe))"

definition engine_inv :: "PlaylistEngine \<Rightarrow> bool" where
  "engine_inv pe \<longleftrightarrow> (\<exists>as. engine_inv_at pe as)"

text \<open>
  The engine states that the operations \<open>AddSong\<close>, \<open>RateSong\<close> and \<open>DeleteSong\<close> reach
  from a new engine, with any arguments and clock readings.
\<close>

inductive reachable :: "unicode \<Rightarrow> PlaylistEngine \<Rightarrow> bool" for u :: unicode where
  new: "reachable u (NewPlaylistEngine now name)"
| add: "reachable u pe \<Longrightarrow>
        AddSong u nanos now title artist album genre subgenre mood duration bpm pe = Some (r, pe')
        \<Longrightarrow> reachable u pe'"
| rate: "reachable u pe \<Longrightarrow> RateSong songID rating pe = Some (r, pe') \<Longrightarrow> reachable u pe'"
| delete: "reachable u pe \<Longrightarrow> DeleteSong index pe = Some (e, pe') \<Longrightarrow> reachable u pe'"

section \<open>Properties of the recency stack\<close>

lemma toSliceLoop_eq: "toSliceLoop xs acc = acc @ xs"
  by (induction xs arbitrary: acc) auto

lemma recentLoop_eq:
  "0 \<le> c \<Longrightarrow> c \<le> n \<Longrightarrow> recentLoop xs c n acc = acc @ take (nat (n - c)) xs"
proof (induction xs arbitrary: c acc)
  case Nil
  then show ?case by simp
next
  case (Cons x xs)
  show ?case
  proof (cases "c < n")
    case True
    then have "nat (n - c) = Suc (nat (n - (c + 1)))" by simp
    with Cons True show ?thesis by simp
  next
    case False
    with Cons have "n - c = 0" by simp
    with False show ?thesis by simp
  qed
qed

lemma cutLast_butlast: "2 \<le> length xs \<Longrightarrow> cutLast xs = Some (butlast xs)"
  by (induction xs rule: cutLast.induct) auto

text \<open>The invariant of the states reached by pushes from a new stack.\<close>

definition stack_inv :: "PlaybackHistoryStack \<Rightarrow> bool" where
  "stack_inv phs \<longleftrightarrow>
     Size phs = int (length (Top phs)) \<and> 1 \<le> MaxSize phs \<and> Size phs \<le> MaxSize phs"

lemma stack_inv_New: "stack_inv (NewPlaybackHistoryStack m)"
  by (simp add: stack_inv_def NewPlaybackHistoryStack_def)

lemma Push_inv:
  assumes "stack_inv phs"
  shows "\<exists>phs'. Push song phs = Some phs' \<and> stack_inv phs' \<and> MaxSize phs' = MaxSize phs
           \<and> Top phs' = take (nat (MaxSize phs)) (song # Top phs)"
proof (cases "Size phs + 1 > MaxSize phs")
  case True
  with assms have full: "int (length (Top phs)) = MaxSize phs" and big: "1 \<le> length (Top phs)"
    by (auto simp: stack_inv_def)
  then have cut: "cutLast (song # Top phs) = Some (butlast (song # Top phs))"
    by (intro cutLast_butlast) simp
  have "butlast (song # Top phs) = take (length (Top phs)) (song # Top phs)"
    by (metis butlast_conv_take length_Cons diff_Suc_1)
  moreover have "nat (MaxSize phs) = length (Top phs)" using full by simp
  moreover have "\<not> Size phs + 1 \<le> 1" using assms big by (cases "Top phs") (auto simp: stack_inv_def)
  ultimately show ?thesis
    using True assms cut
    by (simp add: Push_def removeBottom_def stack_inv_def Let_def del: butlast.simps)
next
  case False
  with assms show ?thesis
    by (auto simp: Push_def stack_inv_def Let_def)
qed

lemma PushAll_inv:
  "stack_inv phs \<Longrightarrow>
     \<exists>phs'. PushAll songs phs = Some phs' \<and> stack_inv phs' \<and> MaxSize phs' = MaxSize phs"
proof (induction songs arbitrary: phs)
  case Nil
  then show ?case by simp
next
  case (Cons x xs)
  from Push_inv [OF Cons.prems, of x] obtain p1 where
    p1: "Push x phs = Some p1" "stack_inv p1" "MaxSize p1 = MaxSize phs" by blast
  from Cons.IH [OF p1(2)] p1 show ?case by auto
qed

lemma take_Cons_take: "take m (x # take m ys) = take m (x # ys)"
  by (cases m) (simp_all add: min_def)

lemma PushAll_Top:
  "stack_inv phs \<Longrightarrow>
     \<exists>phs'. PushAll songs phs = Some phs' \<and> stack_inv phs' \<and> MaxSize phs' = MaxSize phs
       \<and> Top phs' = take (nat (MaxSize phs)) (rev songs @ Top phs)"
proof (induction songs arbitrary: phs)
  case Nil
  then have "length (Top phs) \<le> nat (MaxSize phs)" unfolding stack_inv_def by linarith
  with Nil show ?case by simp
next
  case (Cons x xs)
  from Push_inv [OF Cons.prems, of x] obtain p1 where
    p1: "Push x phs = Some p1" "stack_inv p1" "MaxSize p1 = MaxSize phs"
        "Top p1 = take (nat (MaxSize phs)) (x # Top phs)" by blast
  from Cons.IH [OF p1(2)] obtain p2 where
    p2: "PushAll xs p1 = Some p2" "stack_inv p2" "MaxSize p2 = MaxSize p1"
        "Top p2 = take (nat (MaxSize p1)) (rev xs @ Top p1)" by blast
  have "take (nat (MaxSize phs)) (rev xs @ take (nat (MaxSize phs)) (x # Top phs))
          = take (nat (MaxSize phs)) (rev xs @ x # Top phs)"
    by (simp add: take_Cons_take min_def)
  with p1 p2 show ?case by simp
qed

lemma GetRecentSongs_all:
  assumes "Size phs = int (length (Top phs))" "Size phs < n"
  shows "GetRecentSongs n phs = ToSlice_stack phs"
proof -
  from assms have "0 < n" "length (Top phs) \<le> nat n" by auto
  then show ?thesis
    by (simp add: GetRecentSongs_def ToSlice_stack_def toSliceLoop_eq recentLoop_eq)
qed

text \<open>
  C6. In every state reached from a new stack by a sequence of pushes (no push panics):
  \<open>GetRecentSongs 0\<close> is empty; \<open>GetRecentSongs n\<close> with \<open>n\<close> above the history size is
  the whole history, most recent first, and has exactly \<open>Size\<close> elements; the size never
  exceeds \<open>MaxSize\<close>; and one more push keeps the newest \<open>MaxSize\<close> entries, which on a
  full stack drops the oldest (bottom) entry.
\<close>

theorem recency_stack_bounds:
  "\<exists>phs. PushAll songs (NewPlaybackHistoryStack m) = Some phs
     \<and> GetRecentSongs 0 phs = []
     \<and> ToSlice_stack phs = take (nat (MaxSize phs)) (rev songs)
     \<and> (\<forall>n. Size phs < n \<longrightarrow>
           GetRecentSongs n phs = ToSlice_stack phs
           \<and> int (length (GetRecentSongs n phs)) = Size phs)
     \<and> Size phs \<le> MaxSize phs
     \<and> (\<forall>song. \<exists>phs'. Push song phs = Some phs'
           \<and> Size phs' \<le> MaxSize phs' \<and> MaxSize phs' = MaxSize phs
           \<and> ToSlice_stack phs' = take (nat (MaxSize phs)) (song # ToSlice_stack phs)
           \<and> (Size phs = MaxSize phs \<longrightarrow>
                 ToSlice_stack phs' = song # butlast (ToSlice_stack phs)))"
proof -
  from PushAll_Top [OF stack_inv_New, of songs m] obtain phs where
    phs: "PushAll songs (NewPlaybackHistoryStack m) = Some phs" "stack_inv phs"
         "Top phs = take (nat (MaxSize (NewPlaybackHistoryStack m)))
                      (rev songs @ Top (NewPlaybackHistoryStack m))"
         "MaxSize phs = MaxSize (NewPlaybackHistoryStack m)"
    by blast
  have sz: "Size phs = int (length (Top phs))" using phs(2) by (simp add: stack_inv_def)
  have slice: "ToSlice_stack phs = Top phs"
    by (simp add: ToSlice_stack_def toSliceLoop_eq)
  have a: "GetRecentSongs 0 phs = []" by (simp add: GetRecentSongs_def)
  have b: "ToSlice_stack phs = take (nat (MaxSize phs)) (rev songs)"
    using phs(3,4) slice by (simp add: NewPlaybackHistoryStack_def)
  have c: "\<forall>n. Size phs < n \<longrightarrow>
             GetRecentSongs n phs = ToSlice_stack phs
             \<and> int (length (GetRecentSongs n phs)) = Size phs"
    using GetRecentSongs_all [OF sz] slice sz by simp
  have d: "Size phs \<le> MaxSize phs" using phs(2) by (simp add: stack_inv_def)
  have e: "\<exists>phs'. Push song phs = Some phs'
           \<and> Size phs' \<le> MaxSize phs' \<and> MaxSize phs' = MaxSize phs
           \<and> ToSlice_stack phs' = take (nat (MaxSize phs)) (song # ToSlice_stack phs)
           \<and> (Size phs = MaxSize phs \<longrightarrow>
                 ToSlice_stack phs' = song # butlast (ToSlice_stack phs))" for song
  proof -
    from Push_inv [OF phs(2), of song] obtain p' where
      p': "Push song phs = Some p'" "stack_inv p'" "MaxSize p' = MaxSize phs"
          "Top p' = take (nat (MaxSize phs)) (song # Top phs)" by blast
    have "Size phs = MaxSize phs \<Longrightarrow>
            take (nat (MaxSize phs)) (song # Top phs) = song # butlast (Top phs)"
    proof -
      assume full: "Size phs = MaxSize phs"
      have "1 \<le> MaxSize phs" using phs(2) by (simp add: stack_inv_def)
      then obtain k where k: "nat (MaxSize phs) = Suc k"
        by (cases "nat (MaxSize phs)") auto
      with full sz have "length (Top phs) = Suc k" by simp
      then have "take k (Top phs) = butlast (Top phs)"
        by (simp add: butlast_conv_take)
      with k show ?thesis by simp
    qed
    with p' show ?thesis
      by (auto simp: ToSlice_stack_def toSliceLoop_eq stack_inv_def)
  qed
  from phs(1) a b c d e show ?thesis by blast
qed

theorem recency_stack_bounds_witness:
  "\<exists>phs. PushAll [1, 2, 3] (NewPlaybackHistoryStack 2) = Some phs
     \<and> Size phs < 5 \<and> GetRecentSongs 5 phs = [3, 2] \<and> Size phs = MaxSize phs
     \<and> (\<exists>phs'. Push 4 phs = Some phs' \<and> ToSlice_stack phs' = [4, 3])"
proof -
  have run: "PushAll [1, 2, 3] (NewPlaybackHistoryStack 2)
               = Some \<lparr>Top = [3, 2], Size = 2, MaxSize = 2\<rparr>"
    by (simp add: NewPlaybackHistoryStack_def Push_def removeBottom_def Let_def)
  from recency_stack_bounds [of "[1, 2, 3]" 2] obtain phs where
    phs: "PushAll [1, 2, 3] (NewPlaybackHistoryStack 2) = Some phs"
    and all: "\<forall>n. Size phs < n \<longrightarrow> GetRecentSongs n phs = ToSlice_stack phs
                \<and> int (length (GetRecentSongs n phs)) = Size phs"
    and push: "\<forall>song. \<exists>phs'. Push song phs = Some phs'
           \<and> Size phs' \<le> MaxSize phs' \<and> MaxSize phs' = MaxSize phs
           \<and> ToSlice_stack phs' = take (nat (MaxSize phs)) (song # ToSlice_stack phs)
           \<and> (Size phs = MaxSize phs \<longrightarrow>
                 ToSlice_stack phs' = song # butlast (ToSlice_stack phs))"
    by blast
  from phs run have eq: "phs = \<lparr>Top = [3, 2], Size = 2, MaxSize = 2\<rparr>" by simp
  have lt: "Size phs < 5" and full: "Size phs = MaxSize phs" using eq by simp_all
  from all lt have "GetRecentSongs 5 phs = ToSlice_stack phs" by blast
  then have r: "GetRecentSongs 5 phs = [3, 2]"
    using eq by (simp add: ToSlice_stack_def)
  from push obtain phs' where
    "Push 4 phs = Some phs'"
    "Size phs = MaxSize phs \<longrightarrow> ToSlice_stack phs' = 4 # butlast (ToSlice_stack phs)"
    by blast
  with full eq have "Push 4 phs = Some phs' \<and> ToSlice_stack phs' = [4, 3]"
    by (simp add: ToSlice_stack_def)
  with phs lt r full show ?thesis by blast
qed

section \<open>Properties of the ordered sequence\<close>

lemma dll_inv_nextD:
  "dll_inv dll as \<Longrightarrow> i < length as \<Longrightarrow>
     Next (nodes dll ! (as ! i)) = (if Suc i < length as then Some (as ! Suc i) else None)"
  by (simp add: dll_inv_def)

lemma dll_inv_prevD:
  "dll_inv dll as \<Longrightarrow> i < length as \<Longrightarrow>
     Prev (nodes dll ! (as ! i)) = (if i = 0 then None else Some (as ! (i - 1)))"
  by (simp add: dll_inv_def)

lemma dll_inv_allocD: "dll_inv dll as \<Longrightarrow> i < length as \<Longrightarrow> as ! i < length (nodes dll)"
  by (simp add: dll_inv_def)

lemma walkNext_inv:
  "dll_inv dll as \<Longrightarrow> j + k < length as \<Longrightarrow>
     walkNext (nodes dll) (Some (as ! j)) k = Some (Some (as ! (j + k)))"
proof (induction k arbitrary: j)
  case 0
  then show ?case by simp
next
  case (Suc k)
  then have j: "j < length as" "Suc j < length as" "Suc j + k < length as" by simp_all
  from Suc.IH [OF Suc.prems(1) j(3)] dll_inv_nextD [OF Suc.prems(1) j(1)]
    dll_inv_allocD [OF Suc.prems(1) j(1)] j(2)
  show ?case by (simp add: getNode_def)
qed

lemma walkPrev_inv:
  "dll_inv dll as \<Longrightarrow> j < length as \<Longrightarrow> k \<le> j \<Longrightarrow>
     walkPrev (nodes dll) (Some (as ! j)) k = Some (Some (as ! (j - k)))"
proof (induction k arbitrary: j)
  case 0
  then show ?case by simp
next
  case (Suc k)
  then obtain j' where j': "j = Suc j'" by (cases j) auto
  with Suc.prems have "j' < length as" "k \<le> j'" by simp_all
  from Suc.IH [OF Suc.prems(1) this] dll_inv_prevD [OF Suc.prems(1) Suc.prems(2)]
    dll_inv_allocD [OF Suc.prems(1) Suc.prems(2)] j'
  show ?case by (simp add: getNode_def)
qed

lemma getNodeAtIndex_inv:
  assumes "dll_inv dll as" "0 \<le> i" "i < int (length as)"
  shows "getNodeAtIndex i dll = Some (Some (as ! nat i))"
proof -
  from assms have ne: "as \<noteq> []" by auto
  have H: "Head dll = Some (as ! 0)" using assms(1) ne by (simp add: dll_inv_def hd_conv_nth)
  have T: "Tail dll = Some (as ! (length as - 1))"
    using assms(1) ne by (simp add: dll_inv_def last_conv_nth)
  have L: "Length dll = int (length as)" using assms(1) by (simp add: dll_inv_def)
  show ?thesis
  proof (cases "i < go_div (Length dll) 2")
    case True
    from walkNext_inv [OF assms(1), of 0 "nat i"] assms H True
    show ?thesis by (simp add: getNodeAtIndex_def)
  next
    case False
    have "nat (Length dll - 1 - i) \<le> length as - 1" using L assms by simp
    moreover have "length as - 1 < length as" using ne by simp
    moreover have "length as - 1 - nat (Length dll - 1 - i) = nat i" using L assms by simp
    ultimately show ?thesis
      using walkPrev_inv [OF assms(1), of "length as - 1" "nat (Length dll - 1 - i)"] T False
      by (simp add: getNodeAtIndex_def)
  qed
qed

lemma toSliceFrom_inv:
  "dll_inv dll as \<Longrightarrow> j \<le> length as \<Longrightarrow>
     toSliceFrom (nodes dll) (if j < length as then Some (as ! j) else None) acc
       = Some (acc @ map (\<lambda>a. Song (nodes dll ! a)) (drop j as))"
proof (induction "length as - j" arbitrary: j acc)
  case 0
  then show ?case by (simp add: toSliceFrom.simps)
next
  case (Suc n)
  then have j: "j < length as" "n = length as - Suc j" "Suc j \<le> length as" by simp_all
  from Suc.hyps(1) [OF j(2) Suc.prems(1) j(3), of "acc @ [Song (nodes dll ! (as ! j))]"]
    dll_inv_nextD [OF Suc.prems(1) j(1)] dll_inv_allocD [OF Suc.prems(1) j(1)] j(1)
  show ?case
    by (subst toSliceFrom.simps) (simp add: Cons_nth_drop_Suc [symmetric])
qed

lemma ToSlice_dll_inv: "dll_inv dll as \<Longrightarrow> ToSlice_dll dll = Some (songs_of dll as)"
  using toSliceFrom_inv [of dll as 0 "[]"]
  by (cases as) (auto simp: ToSlice_dll_def songs_of_def dll_inv_def toSliceFrom.simps)

lemma dll_inv_nth_eq:
  "dll_inv dll as \<Longrightarrow> i < length as \<Longrightarrow> j < length as \<Longrightarrow> as ! i = as ! j \<longleftrightarrow> i = j"
  by (simp add: dll_inv_def nth_eq_iff_index_eq)

lemma AddSong_dll_inv:
  assumes "dll_inv dll as"
  shows "\<exists>dll'. AddSong_dll song dll = Some dll'
           \<and> dll_inv dll' (as @ [length (nodes dll)])
           \<and> songs_of dll' (as @ [length (nodes dll)]) = songs_of dll as @ [song]"
proof (cases "as = []")
  case True
  with assms show ?thesis
    by (simp add: AddSong_dll_def dll_inv_def songs_of_def Let_def)
next
  case False
  let ?a = "length (nodes dll)"
  let ?t = "last as"
  let ?new = "\<lparr>Song = song, Next = None, Prev = Tail dll\<rparr>"
  let ?ns = "(nodes dll)[?t := (nodes dll ! ?t)\<lparr>Next := Some ?a\<rparr>] @ [?new]"
  let ?dll' = "dll\<lparr>nodes := ?ns, Tail := Some ?a, Length := Length dll + 1\<rparr>"
  have T: "Tail dll = Some ?t" and H: "Head dll = Some (hd as)"
    using assms False by (simp_all add: dll_inv_def)
  have t: "?t < ?a" using assms False by (simp add: dll_inv_def)
  have tl: "?t = as ! (length as - 1)" using False by (simp add: last_conv_nth)
  have run: "AddSong_dll song dll = Some ?dll'"
    using T H t by (simp add: AddSong_dll_def Let_def setNext_def)
  have alloc: "\<And>i. i < length as \<Longrightarrow> as ! i < ?a" using assms by (simp add: dll_inv_def)
  have notin: "?a \<notin> set as" using assms by (auto simp: dll_inv_def)
  have node: "\<And>i. i < length as \<Longrightarrow>
     ?ns ! (as ! i) = (if i = length as - 1 then (nodes dll ! (as ! i))\<lparr>Next := Some ?a\<rparr>
                       else nodes dll ! (as ! i))"
    using alloc dll_inv_nth_eq [OF assms] False tl
    by (auto simp: nth_append nth_list_update)
  have newn: "?ns ! ?a = ?new" by (simp add: nth_append)
  have inv: "dll_inv ?dll' (as @ [?a])"
    unfolding dll_inv_def
  proof (intro conjI allI impI ballI)
    show "distinct (as @ [?a])" using assms notin by (simp add: dll_inv_def)
    show "\<And>a. a \<in> set (as @ [?a]) \<Longrightarrow> a < length (nodes ?dll')"
      using assms by (auto simp: dll_inv_def less_Suc_eq)
    show "Length ?dll' = int (length (as @ [?a]))" using assms by (simp add: dll_inv_def)
    show "Head ?dll' = (if as @ [?a] = [] then None else Some (hd (as @ [?a])))"
      using H False by simp
    show "Tail ?dll' = (if as @ [?a] = [] then None else Some (last (as @ [?a])))" by simp
  next
    fix i assume i: "i < length (as @ [?a])"
    show "Next (nodes ?dll' ! ((as @ [?a]) ! i))
            = (if Suc i < length (as @ [?a]) then Some ((as @ [?a]) ! Suc i) else None)"
    proof (cases "i < length as")
      case True
      then show ?thesis
        using node [OF True] dll_inv_nextD [OF assms True]
        by (auto simp: nth_append)
    next
      case False
      with i have "i = length as" by simp
      then show ?thesis using newn by (simp add: nth_append)
    qed
    show "Prev (nodes ?dll' ! ((as @ [?a]) ! i))
            = (if i = 0 then None else Some ((as @ [?a]) ! (i - 1)))"
    proof (cases "i < length as")
      case True
      then show ?thesis
        using node [OF True] dll_inv_prevD [OF assms True]
        by (auto simp: nth_append)
    next
      case F: False
      with i have "i = length as" by simp
      then show ?thesis using newn T tl False by (simp add: nth_append)
    qed
  qed
  have "songs_of ?dll' (as @ [?a]) = songs_of dll as @ [song]"
    using node newn by (auto simp: songs_of_def in_set_conv_nth)
  with run inv show ?thesis by blast
qed

lemma length_remove_at: "k < length xs \<Longrightarrow> length (remove_at k xs) = length xs - 1"
  by (simp add: remove_at_def)

lemma nth_remove_at:
  assumes "k < length xs" "j < length xs - 1"
  shows "remove_at k xs ! j = (if j < k then xs ! j else xs ! Suc j)"
proof (cases "j < k")
  case True
  with assms show ?thesis by (simp add: remove_at_def nth_append)
next
  case False
  with assms have "Suc k + (j - k) = Suc j" "min (length xs) k = k" by simp_all
  with False assms show ?thesis by (simp add: remove_at_def nth_append)
qed

lemma set_remove_at: "set (remove_at k xs) \<subseteq> set xs"
  by (auto simp: remove_at_def dest: in_set_takeD in_set_dropD)

lemma distinct_remove_at: "distinct xs \<Longrightarrow> distinct (remove_at k xs)"
  using set_take_disj_set_drop_if_distinct [of xs k "Suc k"]
  by (simp add: remove_at_def)

lemma map_remove_at: "map f (remove_at k xs) = remove_at k (map f xs)"
  by (simp add: remove_at_def take_map drop_map)

lemma dll_inv_remove:
  assumes inv: "dll_inv dll as" and k: "k < length as"
    and len: "length ns' = length (nodes dll)"
    and node: "\<And>j. j < length as \<Longrightarrow> j \<noteq> k \<Longrightarrow>
        Song (ns' ! (as ! j)) = Song (nodes dll ! (as ! j))
        \<and> Next (ns' ! (as ! j)) = (if Suc j = k then Next (nodes dll ! (as ! k))
                                    else Next (nodes dll ! (as ! j)))
        \<and> Prev (ns' ! (as ! j)) = (if j = Suc k then Prev (nodes dll ! (as ! k))
                                    else Prev (nodes dll ! (as ! j)))"
    and H: "Head dll' = (if length as = 1 then None else if k = 0 then Some (as ! 1) else Head dll)"
    and T: "Tail dll' = (if length as = 1 then None
                         else if Suc k = length as then Some (as ! (k - 1)) else Tail dll)"
    and L: "Length dll' = Length dll - 1"
    and N: "nodes dll' = ns'"
  shows "dll_inv dll' (remove_at k as) \<and> songs_of dll' (remove_at k as) = remove_at k (songs_of dll as)"
proof
  let ?bs = "remove_at k as"
  have lb: "length ?bs = length as - 1" using k by (rule length_remove_at)
  have nb: "\<And>j. j < length as - 1 \<Longrightarrow> ?bs ! j = (if j < k then as ! j else as ! Suc j)"
    using k by (rule nth_remove_at)
  have H0: "Head dll = Some (as ! 0)" and T0: "Tail dll = Some (as ! (length as - 1))"
    using inv k by (auto simp: dll_inv_def hd_conv_nth last_conv_nth)
  show "dll_inv dll' ?bs"
    unfolding dll_inv_def
  proof (intro conjI allI impI ballI)
    show "distinct ?bs" using inv by (simp add: dll_inv_def distinct_remove_at)
    show "\<And>a. a \<in> set ?bs \<Longrightarrow> a < length (nodes dll')"
      using inv set_remove_at [of k as] len N by (auto simp: dll_inv_def)
    show "Length dll' = int (length ?bs)" using inv L lb k by (simp add: dll_inv_def)
    show "Head dll' = (if ?bs = [] then None else Some (hd ?bs))"
    proof (cases "length as = 1")
      case True
      then show ?thesis using H lb by simp
    next
      case False
      with k lb have ne: "?bs \<noteq> []" "0 < length as - 1" by auto
      then show ?thesis using H H0 False nb [of 0] by (auto simp: hd_conv_nth)
    qed
    show "Tail dll' = (if ?bs = [] then None else Some (last ?bs))"
    proof (cases "length as = 1")
      case True
      then show ?thesis using T lb by simp
    next
      case False
      with k obtain n where n: "length as = Suc (Suc n)"
        by (cases "length as"; cases "length as - 1") auto
      then have ne: "?bs \<noteq> []" and ln: "length ?bs = Suc n" using lb by auto
      have "last ?bs = ?bs ! n" using ne ln by (simp add: last_conv_nth)
      also have "\<dots> = (if n < k then as ! n else as ! Suc n)"
        using nb [of n] n by simp
      finally have "last ?bs = (if n < k then as ! n else as ! Suc n)" .
      moreover have "n < k \<longleftrightarrow> Suc k = length as" using k n by auto
      ultimately show ?thesis using T T0 False ne n by auto
    qed
  next
    fix i assume "i < length ?bs"
    then have i: "i < length as - 1" "i < length as" "Suc i < length as" using lb by simp_all
    have bi: "?bs ! i = (if i < k then as ! i else as ! Suc i)" using nb [OF i(1)] .
    have bS: "Suc i < length ?bs \<Longrightarrow> ?bs ! Suc i = (if Suc i < k then as ! Suc i else as ! Suc (Suc i))"
      using nb [of "Suc i"] lb by simp
    have bP: "0 < i \<Longrightarrow> ?bs ! (i - 1) = (if i - 1 < k then as ! (i - 1) else as ! i)"
      using nb [of "i - 1"] i by simp
    show "Next (nodes dll' ! (?bs ! i)) = (if Suc i < length ?bs then Some (?bs ! Suc i) else None)"
    proof (cases "i < k")
      case True
      then have eq: "Next (nodes dll' ! (?bs ! i))
                   = (if Suc i = k then Next (nodes dll ! (as ! k)) else Next (nodes dll ! (as ! i)))"
        using bi node [of i] i N by simp
      show ?thesis
      proof (cases "Suc i = k")
        case S: True
        then show ?thesis
          using eq dll_inv_nextD [OF inv k] bS lb by auto
      next
        case S: False
        with True have "Suc i < k" by simp
        then show ?thesis
          using eq S dll_inv_nextD [OF inv i(2)] bS lb k i by auto
      qed
    next
      case False
      then have "Next (nodes dll' ! (?bs ! i)) = Next (nodes dll ! (as ! Suc i))"
        using bi node [of "Suc i"] i N by simp
      then show ?thesis
        using dll_inv_nextD [OF inv i(3)] False bS lb by auto
    qed
    show "Prev (nodes dll' ! (?bs ! i)) = (if i = 0 then None else Some (?bs ! (i - 1)))"
    proof (cases "i < k")
      case True
      then have "Prev (nodes dll' ! (?bs ! i)) = Prev (nodes dll ! (as ! i))"
        using bi node [of i] i N by simp
      then show ?thesis
        using dll_inv_prevD [OF inv i(2)] True bP by auto
    next
      case False
      then have eq: "Prev (nodes dll' ! (?bs ! i))
                   = (if i = k then Prev (nodes dll ! (as ! k)) else Prev (nodes dll ! (as ! Suc i)))"
        using bi node [of "Suc i"] i N by simp
      show ?thesis
      proof (cases "i = k")
        case E: True
        then show ?thesis using eq dll_inv_prevD [OF inv k] bP by auto
      next
        case E: False
        with False have "k < i" by simp
        then show ?thesis using eq E dll_inv_prevD [OF inv i(3)] bP by auto
      qed
    qed
  qed
  show "songs_of dll' ?bs = remove_at k (songs_of dll as)"
  proof (rule nth_equalityI)
    show "length (songs_of dll' ?bs) = length (remove_at k (songs_of dll as))"
      using k by (simp add: songs_of_def length_remove_at)
  next
    fix i assume "i < length (songs_of dll' ?bs)"
    then have i: "i < length as - 1" using lb by (simp add: songs_of_def)
    then show "songs_of dll' ?bs ! i = remove_at k (songs_of dll as) ! i"
      using nb [OF i] node [of i] node [of "Suc i"] N k lb
      by (simp add: songs_of_def nth_remove_at)
  qed
qed

lemma DeleteSong_dll_inv:
  assumes inv: "dll_inv dll as" and i: "0 \<le> i" "i < int (length as)"
  shows "\<exists>dll'. DeleteSong_dll i dll = Some (Inr (Song (nodes dll ! (as ! nat i))), dll')
           \<and> dll_inv dll' (remove_at (nat i) as)
           \<and> songs_of dll' (remove_at (nat i) as) = remove_at (nat i) (songs_of dll as)"
proof -
  let ?k = "nat i"
  let ?ns = "nodes dll"
  let ?del = "?ns ! (as ! ?k)"
  have k: "?k < length as" using i by simp
  have L: "Length dll = int (length as)" using inv by (simp add: dll_inv_def)
  have H0: "Head dll = Some (as ! 0)" and T0: "Tail dll = Some (as ! (length as - 1))"
    using inv k by (auto simp: dll_inv_def hd_conv_nth last_conv_nth)
  have alloc: "\<And>j. j < length as \<Longrightarrow> as ! j < length ?ns" using inv by (rule dll_inv_allocD)
  have inj: "\<And>a b. a < length as \<Longrightarrow> b < length as \<Longrightarrow> as ! a = as ! b \<longleftrightarrow> a = b"
    using inv by (rule dll_inv_nth_eq)
  have pos: "0 < length as" using k by (cases as) auto
  have bounds: "\<not> (i < 0 \<or> Length dll \<le> i)" using i L by simp
  show ?thesis
  proof (cases "length as = 1")
    case True
    then have k0: "?k = 0" using k by simp
    let ?dll' = "dll\<lparr>Head := None, Tail := None, Length := 0\<rparr>"
    have run: "DeleteSong_dll i dll = Some (Inr (Song ?del), ?dll')"
      using bounds L True H0 alloc [of 0] k0
      by (simp add: DeleteSong_dll_def getNode_def)
    have "dll_inv ?dll' (remove_at ?k as)
           \<and> songs_of ?dll' (remove_at ?k as) = remove_at ?k (songs_of dll as)"
      by (rule dll_inv_remove [OF inv k, where ns' = "?ns"]) (use True L k0 k i in auto)
    with run show ?thesis by blast
  next
    case False
    then have len2: "2 \<le> length as" "Length dll \<noteq> 1" using k L by auto
    have gi: "getNodeAtIndex i dll = Some (Some (as ! ?k))"
      using getNodeAtIndex_inv [OF inv i] .
    have gd: "getNode ?ns (Some (as ! ?k)) = Some ?del"
      using alloc [OF k] by (simp add: getNode_def)
    have nx: "Next ?del = (if Suc ?k < length as then Some (as ! Suc ?k) else None)"
      using dll_inv_nextD [OF inv k] .
    have pv: "Prev ?del = (if ?k = 0 then None else Some (as ! (?k - 1)))"
      using dll_inv_prevD [OF inv k] .
    consider (head) "?k = 0" | (tail) "?k \<noteq> 0" "Suc ?k = length as"
      | (mid) "?k \<noteq> 0" "Suc ?k < length as"
      using k by linarith
    then show ?thesis
    proof cases
      case head
      let ?n = "as ! 1"
      let ?ns' = "?ns[?n := (?ns ! ?n)\<lparr>Prev := None\<rparr>]"
      let ?dll' = "dll\<lparr>nodes := ?ns', Head := Some ?n, Length := Length dll - 1\<rparr>"
      have n: "?n < length ?ns" using alloc [of 1] len2 by simp
      have run: "DeleteSong_dll i dll = Some (Inr (Song ?del), ?dll')"
        using bounds len2 gi gd H0 head nx n
        by (simp add: DeleteSong_dll_def setPrev_def)
      have "dll_inv ?dll' (remove_at ?k as)
             \<and> songs_of ?dll' (remove_at ?k as) = remove_at ?k (songs_of dll as)"
      proof (rule dll_inv_remove [OF inv k, where ns' = "?ns'"])
        fix j assume j: "j < length as" "j \<noteq> ?k"
        show "Song (?ns' ! (as ! j)) = Song (?ns ! (as ! j)) \<and>
          Next (?ns' ! (as ! j)) = (if Suc j = ?k then Next ?del else Next (?ns ! (as ! j))) \<and>
          Prev (?ns' ! (as ! j)) = (if j = Suc ?k then Prev ?del else Prev (?ns ! (as ! j)))"
          using head j n pv inj [of j 1] len2 alloc [OF j(1)]
          by (cases "j = 1") (auto simp: nth_list_update)
      qed (use head len2 H0 T0 False in auto)
      with run show ?thesis by blast
    next
      case tail
      let ?p = "as ! (?k - 1)"
      let ?ns' = "?ns[?p := (?ns ! ?p)\<lparr>Next := None\<rparr>]"
      let ?dll' = "dll\<lparr>nodes := ?ns', Tail := Some ?p, Length := Length dll - 1\<rparr>"
      have km: "?k - 1 < length as" using k by simp
      have p: "?p < length ?ns" using alloc [OF km] .
      have neH: "Some (as ! ?k) \<noteq> Head dll" using H0 inj [OF k pos] tail(1) by simp
      have "length as - 1 = ?k" using tail(2) by linarith
      then have eqT: "Tail dll = Some (as ! ?k)" using T0 by simp
      have nx': "Next ?del = None" using nx tail(2) by simp
      have pv': "Prev ?del = Some ?p" using pv tail(1) by simp
      have run: "DeleteSong_dll i dll = Some (Inr (Song ?del), ?dll')"
        using bounds len2 gi gd neH eqT pv' p
        by (simp add: DeleteSong_dll_def setNext_def)
      have "dll_inv ?dll' (remove_at ?k as)
             \<and> songs_of ?dll' (remove_at ?k as) = remove_at ?k (songs_of dll as)"
      proof (rule dll_inv_remove [OF inv k, where ns' = "?ns'"])
        fix j assume j: "j < length as" "j \<noteq> ?k"
        have jp: "as ! j = ?p \<longleftrightarrow> Suc j = ?k" using inj [OF j(1) km] tail(1) by auto
        have js: "j \<noteq> Suc ?k" using j(1) tail(2) by linarith
        show "Song (?ns' ! (as ! j)) = Song (?ns ! (as ! j)) \<and>
          Next (?ns' ! (as ! j)) = (if Suc j = ?k then Next ?del else Next (?ns ! (as ! j))) \<and>
          Prev (?ns' ! (as ! j)) = (if j = Suc ?k then Prev ?del else Prev (?ns ! (as ! j)))"
          using jp js p nx' alloc [OF j(1)]
          by (auto simp: nth_list_update)
      next
        show "Head ?dll' = (if length as = 1 then None else if ?k = 0 then Some (as ! 1) else Head dll)"
          using False tail(1) by simp
        show "Tail ?dll' = (if length as = 1 then None
                 else if Suc ?k = length as then Some (as ! (?k - 1)) else Tail dll)"
          using False tail(2) by simp
      qed simp_all
      with run show ?thesis by blast
    next
      case mid
      let ?p = "as ! (?k - 1)"
      let ?n = "as ! Suc ?k"
      let ?ns1 = "?ns[?p := (?ns ! ?p)\<lparr>Next := Next ?del\<rparr>]"
      let ?ns' = "?ns1[?n := (?ns1 ! ?n)\<lparr>Prev := Prev ?del\<rparr>]"
      let ?dll' = "dll\<lparr>nodes := ?ns', Length := Length dll - 1\<rparr>"
      have p: "?p < length ?ns" using alloc [of "?k - 1"] k by simp
      have n: "?n < length ?ns" using alloc [of "Suc ?k"] mid by simp
      have neH: "Some (as ! ?k) \<noteq> Head dll" using H0 inj [OF k pos] mid by simp
      have neT: "Some (as ! ?k) \<noteq> Tail dll"
        using T0 inj [of ?k "length as - 1"] k mid by simp
      have pk: "?p \<noteq> as ! ?k" using inj [of "?k - 1" ?k] k mid by simp
      have d1: "getNode ?ns1 (Some (as ! ?k)) = Some ?del"
        using alloc [OF k] pk by (simp add: getNode_def)
      have run: "DeleteSong_dll i dll = Some (Inr (Song ?del), ?dll')"
        using bounds len2 gi gd neH neT mid pv nx p n d1
        by (simp add: DeleteSong_dll_def setNext_def setPrev_def)
      have pn: "?p \<noteq> ?n" using inj [of "?k - 1" "Suc ?k"] k mid by simp
      have "dll_inv ?dll' (remove_at ?k as)
             \<and> songs_of ?dll' (remove_at ?k as) = remove_at ?k (songs_of dll as)"
      proof (rule dll_inv_remove [OF inv k, where ns' = "?ns'"])
        fix j assume j: "j < length as" "j \<noteq> ?k"
        have jp: "as ! j = ?p \<longleftrightarrow> Suc j = ?k" using inj [of j "?k - 1"] j k mid by auto
        have jn: "as ! j = ?n \<longleftrightarrow> j = Suc ?k" using inj [of j "Suc ?k"] j mid by auto
        show "Song (?ns' ! (as ! j)) = Song (?ns ! (as ! j)) \<and>
          Next (?ns' ! (as ! j)) = (if Suc j = ?k then Next ?del else Next (?ns ! (as ! j))) \<and>
          Prev (?ns' ! (as ! j)) = (if j = Suc ?k then Prev ?del else Prev (?ns ! (as ! j)))"
          using jp jn p n pn alloc [OF j(1)]
          by (auto simp: nth_list_update)
      qed (use mid len2 H0 T0 False in auto)
      with run show ?thesis by blast
    qed
  qed
qed

lemma length_insert_at: "length (insert_at k x xs) = Suc (length xs)"
  by (simp add: insert_at_def)

lemma nth_insert_at:
  assumes "k \<le> length xs" "j \<le> length xs"
  shows "insert_at k x xs ! j = (if j < k then xs ! j else if j = k then x else xs ! (j - 1))"
proof -
  consider "j < k" | "j = k" | "k < j" by linarith
  then show ?thesis
  proof cases
    case 1
    with assms show ?thesis by (simp add: insert_at_def nth_append)
  next
    case 2
    with assms show ?thesis by (simp add: insert_at_def nth_append)
  next
    case 3
    then obtain d where d: "j = Suc (k + d)" by (metis less_iff_Suc_add)
    with assms show ?thesis by (simp add: insert_at_def nth_append min_def)
  qed
qed

lemma set_insert_at: "set (insert_at k x xs) = insert x (set xs)"
proof -
  have "set (take k xs) \<union> set (drop k xs) = set xs"
    by (metis append_take_drop_id set_append)
  then show ?thesis by (auto simp: insert_at_def)
qed

lemma distinct_insert_at: "distinct xs \<Longrightarrow> x \<notin> set xs \<Longrightarrow> distinct (insert_at k x xs)"
  using set_take_disj_set_drop_if_distinct [of xs k k]
  by (auto simp: insert_at_def dest: in_set_takeD in_set_dropD)

lemma map_insert_at: "map f (insert_at k x xs) = insert_at k (f x) (map f xs)"
  by (simp add: insert_at_def take_map drop_map)

lemma dll_inv_insert:
  assumes inv: "dll_inv dll as" and k: "k \<le> length as"
    and len: "length ns' = Suc (length (nodes dll))"
    and node: "\<And>j. j < length as \<Longrightarrow>
        Song (ns' ! (as ! j)) = Song (nodes dll ! (as ! j))
        \<and> Next (ns' ! (as ! j)) = (if Suc j = k then Some (length (nodes dll))
                                    else Next (nodes dll ! (as ! j)))
        \<and> Prev (ns' ! (as ! j)) = (if j = k then Some (length (nodes dll))
                                    else Prev (nodes dll ! (as ! j)))"
    and new: "Song (ns' ! length (nodes dll)) = song"
        "Next (ns' ! length (nodes dll)) = (if k < length as then Some (as ! k) else None)"
        "Prev (ns' ! length (nodes dll)) = (if k = 0 then None else Some (as ! (k - 1)))"
    and H: "Head dll' = (if k = 0 then Some (length (nodes dll)) else Head dll)"
    and T: "Tail dll' = (if k = length as then Some (length (nodes dll)) else Tail dll)"
    and L: "Length dll' = Length dll + 1"
    and N: "nodes dll' = ns'"
  shows "dll_inv dll' (insert_at k (length (nodes dll)) as)
         \<and> songs_of dll' (insert_at k (length (nodes dll)) as) = insert_at k song (songs_of dll as)"
proof
  let ?a = "length (nodes dll)"
  let ?bs = "insert_at k ?a as"
  have lb: "length ?bs = Suc (length as)" by (rule length_insert_at)
  have nb: "\<And>j. j \<le> length as \<Longrightarrow>
              ?bs ! j = (if j < k then as ! j else if j = k then ?a else as ! (j - 1))"
    using k by (rule nth_insert_at)
  have notin: "?a \<notin> set as" using inv by (auto simp: dll_inv_def)
  have H0: "as \<noteq> [] \<Longrightarrow> Head dll = Some (as ! 0)"
    and T0: "as \<noteq> [] \<Longrightarrow> Tail dll = Some (as ! (length as - 1))"
    using inv by (auto simp: dll_inv_def hd_conv_nth last_conv_nth)
  show "dll_inv dll' ?bs"
    unfolding dll_inv_def
  proof (intro conjI allI impI ballI)
    show "distinct ?bs" using inv notin by (simp add: dll_inv_def distinct_insert_at)
    show "\<And>a. a \<in> set ?bs \<Longrightarrow> a < length (nodes dll')"
      using inv len N by (auto simp: dll_inv_def set_insert_at less_Suc_eq)
    show "Length dll' = int (length ?bs)" using inv L lb by (simp add: dll_inv_def)
    have ne: "?bs \<noteq> []" using lb by auto
    have "hd ?bs = ?bs ! 0" using ne by (simp add: hd_conv_nth)
    also have "\<dots> = (if k = 0 then ?a else as ! 0)" using nb [of 0] by simp
    finally have hd: "hd ?bs = (if k = 0 then ?a else as ! 0)" .
    have kne: "k \<noteq> 0 \<Longrightarrow> as \<noteq> []" using k by auto
    show "Head dll' = (if ?bs = [] then None else Some (hd ?bs))"
      using ne hd H H0 kne by auto
    have "last ?bs = ?bs ! length as" using ne lb by (simp add: last_conv_nth)
    also have "\<dots> = (if k = length as then ?a else as ! (length as - 1))"
      using nb [of "length as"] k by auto
    finally have last: "last ?bs = (if k = length as then ?a else as ! (length as - 1))" .
    have kne': "k \<noteq> length as \<Longrightarrow> as \<noteq> []" using k by auto
    show "Tail dll' = (if ?bs = [] then None else Some (last ?bs))"
      using ne last T T0 kne' by auto
  next
    fix i assume "i < length ?bs"
    then have i: "i \<le> length as" using lb by simp
    have bi: "?bs ! i = (if i < k then as ! i else if i = k then ?a else as ! (i - 1))"
      using nb [OF i] .
    have bS: "Suc i \<le> length as \<Longrightarrow>
          ?bs ! Suc i = (if Suc i < k then as ! Suc i else if Suc i = k then ?a else as ! i)"
      using nb [of "Suc i"] by simp
    have bP: "0 < i \<Longrightarrow>
          ?bs ! (i - 1) = (if i - 1 < k then as ! (i - 1) else if i - 1 = k then ?a else as ! (i - 2))"
      using nb [of "i - 1"] i by (simp add: numeral_2_eq_2)
    consider (lt) "i < k" | (eq) "i = k" | (gt) "k < i" by linarith
    then show "Next (nodes dll' ! (?bs ! i)) = (if Suc i < length ?bs then Some (?bs ! Suc i) else None)"
    proof cases
      case lt
      then have il: "i < length as" using k by simp
      have "Next (nodes dll' ! (?bs ! i))
              = (if Suc i = k then Some ?a else Next (nodes dll ! (as ! i)))"
        using bi lt node [OF il] N by simp
      then show ?thesis
        using dll_inv_nextD [OF inv il] lt il bS lb k by auto
    next
      case eq
      then have "Next (nodes dll' ! (?bs ! i)) = (if k < length as then Some (as ! k) else None)"
        using bi new N by simp
      then show ?thesis using eq bS lb i by auto
    next
      case gt
      then obtain i' where i': "i = Suc i'" by (cases i) auto
      with i have il: "i' < length as" by simp
      have "Next (nodes dll' ! (?bs ! i)) = Next (nodes dll ! (as ! i'))"
        using bi gt node [OF il] N i' by simp
      then show ?thesis
        using dll_inv_nextD [OF inv il] gt i' bS lb by auto
    qed
    show "Prev (nodes dll' ! (?bs ! i)) = (if i = 0 then None else Some (?bs ! (i - 1)))"
    proof -
      consider (lt) "i < k" | (eq) "i = k" | (gt) "k < i" by linarith
      then show ?thesis
      proof cases
        case lt
        then have il: "i < length as" using k by simp
        have "Prev (nodes dll' ! (?bs ! i)) = Prev (nodes dll ! (as ! i))"
          using bi lt node [OF il] N by simp
        then show ?thesis
          using dll_inv_prevD [OF inv il] lt bP by auto
      next
        case eq
        then have "Prev (nodes dll' ! (?bs ! i)) = (if k = 0 then None else Some (as ! (k - 1)))"
          using bi new N by simp
        then show ?thesis using eq bP by auto
      next
        case gt
        then obtain i' where i': "i = Suc i'" by (cases i) auto
        with i have il: "i' < length as" by simp
        have "Prev (nodes dll' ! (?bs ! i))
                = (if i' = k then Some ?a else Prev (nodes dll ! (as ! i')))"
          using bi gt node [OF il] N i' by simp
        then show ?thesis
          using dll_inv_prevD [OF inv il] gt i' bP by (auto simp: numeral_2_eq_2)
      qed
    qed
  qed
  show "songs_of dll' ?bs = insert_at k song (songs_of dll as)"
  proof (rule nth_equalityI)
    show "length (songs_of dll' ?bs) = length (insert_at k song (songs_of dll as))"
      by (simp add: songs_of_def length_insert_at)
  next
    fix i assume "i < length (songs_of dll' ?bs)"
    then have i: "i \<le> length as" using lb by (simp add: songs_of_def)
    have r: "insert_at k song (songs_of dll as) ! i
               = (if i < k then songs_of dll as ! i else if i = k then song
                  else songs_of dll as ! (i - 1))"
      using nth_insert_at [of k "songs_of dll as" i song] k i by (simp add: songs_of_def)
    consider (lt) "i < k" | (eq) "i = k" | (gt) "k < i" by linarith
    then show "songs_of dll' ?bs ! i = insert_at k song (songs_of dll as) ! i"
    proof cases
      case lt
      then have il: "i < length as" using k by simp
      then show ?thesis using r lt node [OF il] nb [OF i] N lb
        by (simp add: songs_of_def)
    next
      case eq
      then show ?thesis using r new nb [OF i] N lb i by (simp add: songs_of_def)
    next
      case gt
      then obtain i' where i': "i = Suc i'" by (cases i) auto
      with i have il: "i' < length as" by simp
      then show ?thesis using r gt i' node [OF il] nb [OF i] N lb i
        by (simp add: songs_of_def)
    qed
  qed
qed

lemma AddSongAtIndex_inv:
  assumes inv: "dll_inv dll as" and i: "0 \<le> i" "i \<le> int (length as)"
  shows "\<exists>dll'. AddSongAtIndex song i dll = Some (None, dll')
           \<and> dll_inv dll' (insert_at (nat i) (length (nodes dll)) as)
           \<and> songs_of dll' (insert_at (nat i) (length (nodes dll)) as)
               = insert_at (nat i) song (songs_of dll as)"
proof -
  let ?k = "nat i"
  let ?ns = "nodes dll"
  let ?a = "length ?ns"
  have k: "?k \<le> length as" using i by simp
  have L: "Length dll = int (length as)" using inv by (simp add: dll_inv_def)
  have alloc: "\<And>j. j < length as \<Longrightarrow> as ! j < ?a" using inv by (rule dll_inv_allocD)
  have inj: "\<And>a b. a < length as \<Longrightarrow> b < length as \<Longrightarrow> as ! a = as ! b \<longleftrightarrow> a = b"
    using inv by (rule dll_inv_nth_eq)
  have bounds: "\<not> (i < 0 \<or> Length dll < i)" using i L by simp
  consider (last) "i = Length dll" | (first) "i \<noteq> Length dll" "i = 0"
    | (mid) "i \<noteq> Length dll" "i \<noteq> 0" by blast
  then show ?thesis
  proof cases
    case last
    then have kl: "?k = length as" using L by simp
    from AddSong_dll_inv [OF inv, of song] obtain dll' where
      d: "AddSong_dll song dll = Some dll'" "dll_inv dll' (as @ [?a])"
         "songs_of dll' (as @ [?a]) = songs_of dll as @ [song]" by blast
    have "insert_at ?k ?a as = as @ [?a]"
      "insert_at ?k song (songs_of dll as) = songs_of dll as @ [song]"
      using kl by (simp_all add: insert_at_def songs_of_def)
    with d bounds last show ?thesis by (simp add: AddSongAtIndex_def)
  next
    case first
    then have k0: "?k = 0" and pos: "0 < length as" using L by auto
    have H0: "Head dll = Some (as ! 0)"
      using inv pos by (auto simp: dll_inv_def hd_conv_nth)
    let ?h = "as ! 0"
    let ?new = "\<lparr>Song = song, Next = Head dll, Prev = None\<rparr>"
    let ?ns' = "?ns[?h := (?ns ! ?h)\<lparr>Prev := Some ?a\<rparr>] @ [?new]"
    let ?dll' = "dll\<lparr>nodes := ?ns', Head := Some ?a, Length := Length dll + 1\<rparr>"
    have h: "?h < ?a" using alloc [OF pos] .
    have "AddSongToBeginning song dll = Some ?dll'"
      using H0 h by (simp add: AddSongToBeginning_def Let_def setPrev_def)
    then have run: "AddSongAtIndex song i dll = Some (None, ?dll')"
      using bounds first by (simp add: AddSongAtIndex_def)
    have "dll_inv ?dll' (insert_at ?k ?a as)
           \<and> songs_of ?dll' (insert_at ?k ?a as) = insert_at ?k song (songs_of dll as)"
    proof (rule dll_inv_insert [OF inv k, where ns' = "?ns'"])
      fix j assume j: "j < length as"
      have jh: "as ! j = ?h \<longleftrightarrow> j = ?k" using inj [OF j pos] k0 by simp
      show "Song (?ns' ! (as ! j)) = Song (?ns ! (as ! j)) \<and>
        Next (?ns' ! (as ! j)) = (if Suc j = ?k then Some ?a else Next (?ns ! (as ! j))) \<and>
        Prev (?ns' ! (as ! j)) = (if j = ?k then Some ?a else Prev (?ns ! (as ! j)))"
        using jh h alloc [OF j] k0
        by (auto simp: nth_append nth_list_update)
    next
      show "Next (?ns' ! ?a) = (if ?k < length as then Some (as ! ?k) else None)"
        using k0 pos H0 by (simp add: nth_append)
      show "Head ?dll' = (if ?k = 0 then Some ?a else Head dll)" using k0 by simp
      show "Tail ?dll' = (if ?k = length as then Some ?a else Tail dll)" using k0 pos by simp
    qed (simp_all add: nth_append k0)
    with run show ?thesis by blast
  next
    case mid
    then have kpos: "0 < ?k" and kl: "?k < length as" and km: "?k - 1 < length as"
      using i L by auto
    let ?c = "as ! ?k"
    let ?p = "as ! (?k - 1)"
    let ?cur = "?ns ! ?c"
    let ?new = "\<lparr>Song = song, Next = Some ?c, Prev = Some ?p\<rparr>"
    let ?nsa = "?ns @ [?new]"
    let ?nsb = "?nsa[?p := (?nsa ! ?p)\<lparr>Next := Some ?a\<rparr>]"
    let ?ns' = "?nsb[?c := (?nsb ! ?c)\<lparr>Prev := Some ?a\<rparr>]"
    let ?dll' = "dll\<lparr>nodes := ?ns', Length := Length dll + 1\<rparr>"
    have c: "?c < ?a" using alloc [OF kl] .
    have p: "?p < ?a" using alloc [OF km] .
    have pc: "?p \<noteq> ?c" using inj [OF km kl] kpos by simp
    have gi: "getNodeAtIndex i dll = Some (Some ?c)"
      using getNodeAtIndex_inv [OF inv i(1)] i kl by simp
    have gc: "getNode ?ns (Some ?c) = Some ?cur" using c by (simp add: getNode_def)
    have pv: "Prev ?cur = Some ?p" using dll_inv_prevD [OF inv kl] kpos by simp
    have run: "AddSongAtIndex song i dll = Some (None, ?dll')"
      using bounds mid gi gc pv p c
      by (simp add: AddSongAtIndex_def Let_def setNext_def setPrev_def nth_append)
    have "dll_inv ?dll' (insert_at ?k ?a as)
           \<and> songs_of ?dll' (insert_at ?k ?a as) = insert_at ?k song (songs_of dll as)"
    proof (rule dll_inv_insert [OF inv k, where ns' = "?ns'"])
      fix j assume j: "j < length as"
      have jc: "as ! j = ?c \<longleftrightarrow> j = ?k" using inj [OF j kl] by simp
      have jp: "as ! j = ?p \<longleftrightarrow> Suc j = ?k" using inj [OF j km] kpos by auto
      show "Song (?ns' ! (as ! j)) = Song (?ns ! (as ! j)) \<and>
        Next (?ns' ! (as ! j)) = (if Suc j = ?k then Some ?a else Next (?ns ! (as ! j))) \<and>
        Prev (?ns' ! (as ! j)) = (if j = ?k then Some ?a else Prev (?ns ! (as ! j)))"
        using jc jp p c pc alloc [OF j]
        by (auto simp: nth_append nth_list_update)
    next
      have "?ns' ! ?a = ?new" using p c by (simp add: nth_append)
      then show "Song (?ns' ! ?a) = song"
        "Next (?ns' ! ?a) = (if ?k < length as then Some (as ! ?k) else None)"
        "Prev (?ns' ! ?a) = (if ?k = 0 then None else Some (as ! (?k - 1)))"
        using kl kpos by simp_all
      show "Head ?dll' = (if ?k = 0 then Some ?a else Head dll)" using kpos by simp
      show "Tail ?dll' = (if ?k = length as then Some ?a else Tail dll)" using kl by simp
    qed simp_all
    with run show ?thesis by blast
  qed
qed

lemma reverseLoop_inv:
  assumes inv: "dll_inv dll as"
  shows "j \<le> length as \<Longrightarrow> length ns = length (nodes dll) \<Longrightarrow>
     (\<And>m. m < length as \<Longrightarrow>
        ns ! (as ! m) = (if m < j then swapped (nodes dll ! (as ! m)) else nodes dll ! (as ! m))) \<Longrightarrow>
     \<exists>ns'. reverseLoop ns (if j < length as then Some (as ! j) else None) = Some ns'
       \<and> length ns' = length (nodes dll)
       \<and> (\<forall>m<length as. ns' ! (as ! m) = swapped (nodes dll ! (as ! m)))"
proof (induction "length as - j" arbitrary: j ns)
  case 0
  then show ?case by (simp add: reverseLoop.simps)
next
  case (Suc n)
  then have j: "j < length as" "n = length as - Suc j" "Suc j \<le> length as" by simp_all
  let ?a = "as ! j"
  let ?ns = "ns[?a := (ns ! ?a)\<lparr>Next := Prev (ns ! ?a), Prev := Next (ns ! ?a)\<rparr>]"
  have a: "?a < length ns" using dll_inv_allocD [OF inv j(1)] Suc.prems(2) by simp
  have cur: "ns ! ?a = nodes dll ! ?a" using Suc.prems(3) [OF j(1)] by simp
  have nx: "Next (ns ! ?a) = (if Suc j < length as then Some (as ! Suc j) else None)"
    using cur dll_inv_nextD [OF inv j(1)] by simp
  have step: "reverseLoop ns (Some ?a) = reverseLoop ?ns (if Suc j < length as then Some (as ! Suc j) else None)"
    using a nx by (subst reverseLoop.simps) simp
  have "\<exists>ns'. reverseLoop ?ns (if Suc j < length as then Some (as ! Suc j) else None) = Some ns'
       \<and> length ns' = length (nodes dll)
       \<and> (\<forall>m<length as. ns' ! (as ! m) = swapped (nodes dll ! (as ! m)))"
  proof (rule Suc.hyps(1) [OF j(2) j(3)])
    show "length ?ns = length (nodes dll)" using Suc.prems(2) by simp
    fix m assume m: "m < length as"
    show "?ns ! (as ! m) = (if m < Suc j then swapped (nodes dll ! (as ! m)) else nodes dll ! (as ! m))"
    proof (cases "m = j")
      case True
      then show ?thesis using a cur by (simp add: swapped_def)
    next
      case False
      then have "as ! m \<noteq> ?a" using dll_inv_nth_eq [OF inv m j(1)] by simp
      then show ?thesis using Suc.prems(3) [OF m] False by (auto simp: less_Suc_eq)
    qed
  qed
  with step j(1) show ?case by simp
qed

lemma ReversePlaylist_dll_inv:
  assumes inv: "dll_inv dll as"
  shows "\<exists>dll'. ReversePlaylist_dll dll = Some dll' \<and> dll_inv dll' (rev as)
           \<and> songs_of dll' (rev as) = rev (songs_of dll as)
           \<and> (length as \<le> 1 \<longrightarrow> dll' = dll)"
proof (cases "length as \<le> 1")
  case True
  then have r: "rev as = as" by (cases as) auto
  have "Head dll = None \<or> Head dll = Tail dll"
    using inv True by (cases as) (auto simp: dll_inv_def)
  then have "ReversePlaylist_dll dll = Some dll" by (auto simp: ReversePlaylist_dll_def)
  with r inv show ?thesis by (simp add: songs_of_def rev_map)
next
  case False
  then obtain n where n: "length as = Suc (Suc n)"
    by (cases "length as"; cases "length as - 1") auto
  then have ne: "as \<noteq> []" by auto
  have H0: "Head dll = Some (as ! 0)" and T0: "Tail dll = Some (as ! Suc n)"
    using inv ne n by (auto simp: dll_inv_def hd_conv_nth last_conv_nth)
  have "as ! 0 \<noteq> as ! Suc n" using dll_inv_nth_eq [OF inv, of 0 "Suc n"] n by simp
  then have go: "\<not> (Head dll = None \<or> Head dll = Tail dll)" using H0 T0 by simp
  from reverseLoop_inv [OF inv, of 0 "nodes dll"] n H0 obtain ns' where
    ns': "reverseLoop (nodes dll) (Head dll) = Some ns'" "length ns' = length (nodes dll)"
         "\<And>m. m < length as \<Longrightarrow> ns' ! (as ! m) = swapped (nodes dll ! (as ! m))"
    by auto
  let ?dll' = "dll\<lparr>nodes := ns', Head := Tail dll, Tail := Head dll\<rparr>"
  have run: "ReversePlaylist_dll dll = Some ?dll'"
    using go ns'(1) by (auto simp: ReversePlaylist_dll_def)
  have rn: "\<And>i. i < length as \<Longrightarrow> rev as ! i = as ! (Suc n - i)"
    using n by (simp add: rev_nth)
  have "dll_inv ?dll' (rev as)"
    unfolding dll_inv_def
  proof (intro conjI allI impI ballI)
    show "distinct (rev as)" using inv by (simp add: dll_inv_def)
    show "\<And>a. a \<in> set (rev as) \<Longrightarrow> a < length (nodes ?dll')"
      using inv ns'(2) by (simp add: dll_inv_def)
    show "Length ?dll' = int (length (rev as))" using inv by (simp add: dll_inv_def)
    show "Head ?dll' = (if rev as = [] then None else Some (hd (rev as)))"
      using ne T0 n by (simp add: hd_rev last_conv_nth)
    show "Tail ?dll' = (if rev as = [] then None else Some (last (rev as)))"
      using ne H0 by (simp add: last_rev hd_conv_nth)
  next
    fix i assume "i < length (rev as)"
    then have i: "i < length as" "i \<le> Suc n" "Suc n - i < length as" using n by simp_all
    have node: "nodes ?dll' ! (rev as ! i) = swapped (nodes dll ! (as ! (Suc n - i)))"
      using rn [OF i(1)] ns'(3) [OF i(3)] by simp
    show "Next (nodes ?dll' ! (rev as ! i))
            = (if Suc i < length (rev as) then Some (rev as ! Suc i) else None)"
    proof (cases "Suc i < length as")
      case True
      then have "Suc n - i \<noteq> 0" "Suc n - i - 1 = Suc n - Suc i" using n by simp_all
      then show ?thesis
        using node dll_inv_prevD [OF inv i(3)] True rn [OF True]
        by (simp add: swapped_def)
    next
      case F: False
      then have "Suc n - i = 0" using n i by simp
      then show ?thesis
        using node dll_inv_prevD [OF inv i(3)] F by (simp add: swapped_def)
    qed
    show "Prev (nodes ?dll' ! (rev as ! i)) = (if i = 0 then None else Some (rev as ! (i - 1)))"
    proof (cases "i = 0")
      case True
      then show ?thesis
        using node dll_inv_nextD [OF inv i(3)] n by (simp add: swapped_def)
    next
      case F: False
      then have "Suc (Suc n - i) < length as" "Suc (Suc n - i) = Suc n - (i - 1)" "i - 1 < length as"
        using n i by simp_all
      then show ?thesis
        using node dll_inv_nextD [OF inv i(3)] F rn [of "i - 1"]
        by (simp add: swapped_def)
    qed
  qed
  moreover have "songs_of ?dll' (rev as) = rev (songs_of dll as)"
    using ns'(3) by (auto simp: songs_of_def rev_map swapped_def in_set_conv_nth)
  ultimately show ?thesis using run False by blast
qed

section \<open>Properties of the direct-lookup index\<close>

lemma sint_abs_cases:
  fixes h :: "64 word"
  shows "0 \<le> sint (if sint h < 0 then - h else h) \<or> sint (if sint h < 0 then - h else h) = - (2 ^ 63)"
proof (cases "sint h < 0")
  case False
  then show ?thesis by simp
next
  case True
  have ge: "- (2 ^ 63) \<le> sint h" using sint_ge [of h] by simp
  have neg: "sint (- h) = signed_take_bit 63 (- sint h)" by (simp add: sint_word_ariths)
  show ?thesis
  proof (cases "sint h = - (2 ^ 63)")
    case T: True
    then have "sint (- h) = signed_take_bit 63 (2 ^ 63 :: int)" using neg by simp
    also have "\<dots> = - (2 ^ 63)" by (simp add: signed_take_bit_eq_take_bit_minus)
    finally show ?thesis using True by simp
  next
    case F: False
    with ge True have "- (2 ^ 63) \<le> - sint h" "- sint h < 2 ^ 63" by simp_all
    then have "signed_take_bit 63 (- sint h) = - sint h"
      by (intro signed_take_bit_int_eq_self) simp_all
    with neg True show ?thesis by simp
  qed
qed

lemma go_mod_range:
  assumes "0 < c" "0 \<le> a \<or> (a = - (2 ^ 63) \<and> c dvd 2 ^ 63)"
  shows "0 \<le> go_mod a c \<and> go_mod a c < c"
  using assms by (auto simp: go_mod_def)

lemma pow2_dvd: "j \<le> 63 \<Longrightarrow> (2::int) ^ j dvd 2 ^ 63"
  by (rule le_imp_power_dvd)

lemma hash_range:
  assumes "Capacity shm = 2 ^ j" "j \<le> 45"
  shows "\<exists>i. hash shm k = Some (int i) \<and> i < nat (Capacity shm)"
proof -
  let ?a = "sint (if sint (djb2 k) < 0 then - djb2 k else djb2 k)"
  have c: "0 < Capacity shm" using assms by simp
  have "Capacity shm dvd 2 ^ 63" using assms pow2_dvd [of j] by simp
  with sint_abs_cases [of "djb2 k"] c
  have "0 \<le> go_mod ?a (Capacity shm) \<and> go_mod ?a (Capacity shm) < Capacity shm"
    by (intro go_mod_range) auto
  then have "hash shm k = Some (int (nat (go_mod ?a (Capacity shm))))
             \<and> nat (go_mod ?a (Capacity shm)) < nat (Capacity shm)"
    using c by (simp add: hash_def Let_def)
  then show ?thesis by blast
qed

lemma bucketAt_struct:
  assumes "hm_struct shm"
  shows "\<exists>i<length (Buckets shm). hash shm k = Some (int i)
           \<and> bucketAt shm k = Some (i, Buckets shm ! i)"
proof -
  from assms obtain j where j: "j \<le> 45" "Capacity shm = 2 ^ j"
    and len: "length (Buckets shm) = nat (Capacity shm)"
    by (auto simp: hm_struct_def)
  from hash_range [OF j(2) j(1), of k] obtain i where
    "hash shm k = Some (int i)" "i < nat (Capacity shm)" by blast
  then show ?thesis using len by (auto simp: bucketAt_def)
qed

lemma chainPut_found: "snd (chainPut k v es) \<longleftrightarrow> k \<in> Key ` set es"
  by (induction es) (auto split: prod.splits)

lemma chainPut_keys:
  "map Key (fst (chainPut k v es)) = (if k \<in> Key ` set es then map Key es else map Key es @ [k])"
  by (induction es) (auto split: prod.splits)

lemma chainPut_length:
  "length (fst (chainPut k v es)) = (if k \<in> Key ` set es then length es else Suc (length es))"
  using chainPut_keys [of k v es] by (metis length_map length_append_singleton)

lemma chainGet_chainPut:
  "chainGet k' (fst (chainPut k v es)) = (if k' = k then Some v else chainGet k' es)"
  by (induction es) (auto split: prod.splits)

lemma chainPut_entries:
  "e \<in> set (fst (chainPut k v es)) \<Longrightarrow> (Key e = k \<and> Value e = v) \<or> e \<in> set es"
  by (induction es) (auto split: prod.splits if_splits)

lemma chainPut_nonempty: "fst (chainPut k v es) \<noteq> []"
  by (cases es) (auto split: prod.splits)

lemma chainGet_None: "chainGet k es = None \<longleftrightarrow> k \<notin> Key ` set es"
  by (induction es) auto

lemma chainGet_Some_in: "chainGet k es = Some v \<Longrightarrow> \<exists>e\<in>set es. Key e = k \<and> Value e = v"
  by (induction es) (auto split: if_splits)

lemma chainGet_distinct:
  "distinct (map Key es) \<Longrightarrow> e \<in> set es \<Longrightarrow> chainGet (Key e) es = Some (Value e)"
  by (induction es) (auto simp: image_iff)

lemma length_concat_update:
  "i < length xs \<Longrightarrow>
     int (length (concat (xs[i := y]))) = int (length (concat xs)) + int (length y) - int (length (xs ! i))"
proof (induction xs arbitrary: i)
  case Nil
  then show ?case by simp
next
  case (Cons x xs)
  then show ?case by (cases i) auto
qed

lemma length_filter_update:
  "i < length xs \<Longrightarrow>
     int (length (filter P (xs[i := y])))
       = int (length (filter P xs)) + (if P y then 1 else 0) - (if P (xs ! i) then 1 else 0)"
proof (induction xs arbitrary: i)
  case Nil
  then show ?case by simp
next
  case (Cons x xs)
  show ?case
  proof (cases i)
    case 0
    then show ?thesis by simp
  next
    case (Suc n)
    with Cons.prems have "n < length xs" by simp
    from Cons.IH [OF this] Suc show ?thesis by (simp split: if_splits)
  qed
qed

lemma hash_cap: "Capacity shm' = Capacity shm \<Longrightarrow> hash shm' k = hash shm k"
  by (simp add: hash_def Let_def)

lemma putKey_struct:
  assumes st: "hm_struct shm"
  obtains shm' chk where "putKey k v shm = Some (shm', chk)" "hm_struct shm'"
    "Capacity shm' = Capacity shm"
    "\<forall>k'. hm_lookup shm' k' = (if k' = k then Some v else hm_lookup shm k')"
    "if chk then Size_hm shm' = Size_hm shm + 1 \<and> nonempty_count shm' = nonempty_count shm
        else Size_hm shm' - nonempty_count shm' = Size_hm shm - nonempty_count shm
             \<and> Size_hm shm \<le> Size_hm shm' \<and> Size_hm shm' \<le> Size_hm shm + 1"
    "\<forall>b'\<in>set (Buckets shm'). \<forall>e\<in>set b'.
          (Key e = k \<and> Value e = v) \<or> (\<exists>b\<in>set (Buckets shm). e \<in> set b)"
proof -
  from bucketAt_struct [OF st, of k] obtain i where
    i: "i < length (Buckets shm)" "hash shm k = Some (int i)"
       "bucketAt shm k = Some (i, Buckets shm ! i)" by blast
  let ?old = "Buckets shm ! i"
  let ?new = "if ?old = [] then [\<lparr>Key = k, Value = v\<rparr>] else fst (chainPut k v ?old)"
  let ?found = "k \<in> Key ` set ?old"
  let ?chk = "?old \<noteq> [] \<and> \<not> ?found"
  let ?shm' = "shm\<lparr>Buckets := (Buckets shm)[i := ?new],
                   Size_hm := (if ?found then Size_hm shm else Size_hm shm + 1)\<rparr>"
  have run: "putKey k v shm = Some (?shm', ?chk)"
    using i(3) chainPut_found [of k v ?old]
    by (cases "chainPut k v ?old") (auto simp: putKey_def)
  have newkeys: "map Key ?new = (if ?found then map Key ?old else map Key ?old @ [k])"
    using chainPut_keys [of k v ?old] by auto
  have newlen: "int (length ?new) = int (length ?old) + (if ?found then 0 else 1)"
    using chainPut_length [of k v ?old] by auto
  have newne: "?new \<noteq> []" using chainPut_nonempty [of k v ?old] by auto
  have newget: "\<And>k'. chainGet k' ?new = (if k' = k then Some v else chainGet k' ?old)"
    using chainGet_chainPut [of _ k v ?old] by auto
  have newent: "\<And>e. e \<in> set ?new \<Longrightarrow> (Key e = k \<and> Value e = v) \<or> e \<in> set ?old"
    using chainPut_entries [of _ k v ?old] by (auto split: if_splits)
  have cap: "Capacity ?shm' = Capacity shm" by simp
  have hs: "\<And>k'. hash ?shm' k' = hash shm k'" by (rule hash_cap) simp
  have bk: "\<And>m. m < length (Buckets shm) \<Longrightarrow>
              Buckets ?shm' ! m = (if m = i then ?new else Buckets shm ! m)"
    by (simp add: nth_list_update)
  have struct: "hm_struct ?shm'"
    unfolding hm_struct_def
  proof (intro conjI allI impI)
    show "\<exists>j\<le>45. Capacity ?shm' = 2 ^ j" using st by (simp add: hm_struct_def)
    show "length (Buckets ?shm') = nat (Capacity ?shm')" using st by (simp add: hm_struct_def)
    show "Size_hm ?shm' = int (length (concat (Buckets ?shm')))"
      using st length_concat_update [OF i(1), of ?new] newlen
      by (simp add: hm_struct_def)
  next
    fix m assume "m < length (Buckets ?shm')"
    then have m: "m < length (Buckets shm)" by simp
    have old: "\<forall>e\<in>set (Buckets shm ! m). hash shm (Key e) = Some (int m)"
      "distinct (map Key (Buckets shm ! m))"
      using st m by (simp_all add: hm_struct_def)
    show "\<forall>e\<in>set (Buckets ?shm' ! m). hash ?shm' (Key e) = Some (int m)"
    proof
      fix e assume e: "e \<in> set (Buckets ?shm' ! m)"
      show "hash ?shm' (Key e) = Some (int m)"
      proof (cases "m = i")
        case True
        with e bk [OF m] have "e \<in> set ?new" by simp
        from newent [OF this] old(1) True i(2) show ?thesis by (auto simp: hs)
      next
        case False
        with e bk [OF m] old(1) show ?thesis by (simp add: hs)
      qed
    qed
    show "distinct (map Key (Buckets ?shm' ! m))"
    proof (cases "m = i")
      case True
      then show ?thesis using bk [OF m] newkeys old(2) by (auto simp del: map_eq_conv)
    next
      case False
      then show ?thesis using bk [OF m] old(2) by simp
    qed
  qed
  have look: "hm_lookup ?shm' k' = (if k' = k then Some v else hm_lookup shm k')" for k'
  proof -
    from bucketAt_struct [OF st, of k'] obtain i' where
      i': "i' < length (Buckets shm)" "hash shm k' = Some (int i')"
          "bucketAt shm k' = Some (i', Buckets shm ! i')" by blast
    have b': "bucketAt ?shm' k' = Some (i', Buckets ?shm' ! i')"
      using i'(1,2) by (simp add: bucketAt_def hs)
    show ?thesis
    proof (cases "i' = i")
      case True
      then show ?thesis using b' i'(3) bk [OF i'(1)] newget by (simp add: hm_lookup_def)
    next
      case False
      then have "k' \<noteq> k" using i(2) i'(2) by auto
      then show ?thesis using False b' i'(3) bk [OF i'(1)] by (simp add: hm_lookup_def)
    qed
  qed
  have cnt: "nonempty_count ?shm' = nonempty_count shm + (if ?old = [] then 1 else 0)"
    using length_filter_update [OF i(1), of "\<lambda>b. b \<noteq> []" ?new] newne
    by (simp add: nonempty_count_def)
  have sizes: "if ?chk then Size_hm ?shm' = Size_hm shm + 1 \<and> nonempty_count ?shm' = nonempty_count shm
        else Size_hm ?shm' - nonempty_count ?shm' = Size_hm shm - nonempty_count shm
             \<and> Size_hm shm \<le> Size_hm ?shm' \<and> Size_hm ?shm' \<le> Size_hm shm + 1"
    using cnt by auto
  have ents: "\<forall>b'\<in>set (Buckets ?shm'). \<forall>e\<in>set b'.
          (Key e = k \<and> Value e = v) \<or> (\<exists>b\<in>set (Buckets shm). e \<in> set b)"
  proof (intro ballI)
    fix b' e assume b': "b' \<in> set (Buckets ?shm')" and e: "e \<in> set b'"
    from b' obtain m where m: "m < length (Buckets shm)" "b' = Buckets ?shm' ! m"
      by (auto simp: in_set_conv_nth)
    show "(Key e = k \<and> Value e = v) \<or> (\<exists>b\<in>set (Buckets shm). e \<in> set b)"
    proof (cases "m = i")
      case True
      with m e bk [OF m(1)] have "e \<in> set ?new" by simp
      from newent [OF this] nth_mem [OF i(1)] show ?thesis by blast
    next
      case False
      with m e bk [OF m(1)] have "e \<in> set (Buckets shm ! m)" by simp
      with nth_mem [OF m(1)] show ?thesis by blast
    qed
  qed
  have look': "\<forall>k'. hm_lookup ?shm' k' = (if k' = k then Some v else hm_lookup shm k')"
    using look by blast
  show thesis by (rule that [OF run struct cap look' sizes ents])
qed

lemma hm_exec_Put:
  "hm_exec st (CallPut song shm) =
     (case deref st song of
        None \<Rightarrow> None
      | Some s \<Rightarrow>
          if ID s = [] then Some shm
          else case putKey (ID s) song shm of
                 None \<Rightarrow> None
               | Some r \<Rightarrow>
                   if snd r \<and> Size_hm (fst r) > Capacity (fst r) * 2
                   then hm_exec st (CallResize (fst r)) else Some (fst r))"
  by (subst hm_exec.simps) simp

lemma hm_exec_PutByTitle:
  "hm_exec st (CallPutByTitle song shm) =
     (case deref st song of
        None \<Rightarrow> None
      | Some s \<Rightarrow>
          if Title s = [] then Some shm
          else case putKey (Title s) song shm of
                 None \<Rightarrow> None
               | Some r \<Rightarrow>
                   if snd r \<and> Size_hm (fst r) > Capacity (fst r) * 2
                   then hm_exec st (CallResize (fst r)) else Some (fst r))"
  by (subst hm_exec.simps) simp

lemma hm_exec_Resize:
  "hm_exec st (CallResize shm) =
     (if makePanics (Capacity shm * 2) then None
      else hm_exec st
             (Rehash (map Value (concat (take (nat (Capacity shm)) (Buckets shm))))
                \<lparr>Buckets = replicate (nat (Capacity shm * 2)) [], Size_hm = 0,
                   Capacity = Capacity shm * 2\<rparr>))"
  by (subst hm_exec.simps) simp

lemma hm_exec_Rehash_Nil: "hm_exec st (Rehash [] shm) = Some shm"
  by (subst hm_exec.simps) simp

lemma hm_exec_Rehash_Cons:
  "hm_exec st (Rehash (v # vs) shm) =
     Option.bind (hm_exec st (CallPut v shm)) (\<lambda>shm'. hm_exec st (Rehash vs shm'))"
  by (subst hm_exec.simps) simp

text \<open>A put that cannot reach the resize threshold.\<close>

lemma Put_small:
  assumes st: "hm_struct T" and v: "v < length st"
    and small: "Size_hm T + 1 \<le> 2 * Capacity T"
  obtains T' where "hm_exec st (CallPut v T) = Some T'" "hm_struct T'"
    "Capacity T' = Capacity T" "Size_hm T \<le> Size_hm T'" "Size_hm T' \<le> Size_hm T + 1"
    "\<forall>k. hm_lookup T' k = (if k = ID (st ! v) \<and> k \<noteq> [] then Some v else hm_lookup T k)"
    "\<forall>b'\<in>set (Buckets T'). \<forall>e\<in>set b'.
          (Value e = v \<and> Key e = ID (st ! v) \<and> Key e \<noteq> []) \<or> (\<exists>b\<in>set (Buckets T). e \<in> set b)"
proof (cases "ID (st ! v) = []")
  case True
  then have run: "hm_exec st (CallPut v T) = Some T"
    using v by (simp add: hm_exec_Put deref_def)
  have l: "\<forall>k. hm_lookup T k = (if k = ID (st ! v) \<and> k \<noteq> [] then Some v else hm_lookup T k)"
    using True by auto
  have e: "\<forall>b'\<in>set (Buckets T). \<forall>e\<in>set b'.
          (Value e = v \<and> Key e = ID (st ! v) \<and> Key e \<noteq> []) \<or> (\<exists>b\<in>set (Buckets T). e \<in> set b)"
    by blast
  show thesis by (rule that [OF run st refl _ _ l e]) simp_all
next
  case False
  from st obtain T' chk where
    p: "putKey (ID (st ! v)) v T = Some (T', chk)" "hm_struct T'" "Capacity T' = Capacity T"
       "\<forall>k'. hm_lookup T' k' = (if k' = ID (st ! v) then Some v else hm_lookup T k')"
       "if chk then Size_hm T' = Size_hm T + 1 \<and> nonempty_count T' = nonempty_count T
        else Size_hm T' - nonempty_count T' = Size_hm T - nonempty_count T
             \<and> Size_hm T \<le> Size_hm T' \<and> Size_hm T' \<le> Size_hm T + 1"
       "\<forall>b'\<in>set (Buckets T'). \<forall>e\<in>set b'.
          (Key e = ID (st ! v) \<and> Value e = v) \<or> (\<exists>b\<in>set (Buckets T). e \<in> set b)"
    by (rule putKey_struct [where k = "ID (st ! v)" and v = v])
  have sz: "Size_hm T \<le> Size_hm T'" "Size_hm T' \<le> Size_hm T + 1"
    using p(5) by (auto split: if_splits)
  then have "\<not> Size_hm T' > Capacity T' * 2" using small p(3) by simp
  then have run: "hm_exec st (CallPut v T) = Some T'"
    using v False p(1) by (simp add: hm_exec_Put deref_def)
  have l: "\<forall>k. hm_lookup T' k = (if k = ID (st ! v) \<and> k \<noteq> [] then Some v else hm_lookup T k)"
    using p(4) False by auto
  have e: "\<forall>b'\<in>set (Buckets T'). \<forall>e\<in>set b'.
          (Value e = v \<and> Key e = ID (st ! v) \<and> Key e \<noteq> []) \<or> (\<exists>b\<in>set (Buckets T). e \<in> set b)"
  proof (intro ballI)
    fix b' e assume "b' \<in> set (Buckets T')" "e \<in> set b'"
    with p(6) have "(Key e = ID (st ! v) \<and> Value e = v) \<or> (\<exists>b\<in>set (Buckets T). e \<in> set b)"
      by blast
    then show "(Value e = v \<and> Key e = ID (st ! v) \<and> Key e \<noteq> []) \<or> (\<exists>b\<in>set (Buckets T). e \<in> set b)"
      using False by auto
  qed
  show thesis by (rule that [OF run p(2) p(3) sz l e])
qed

lemma Rehash_small:
  assumes vs: "\<forall>v\<in>set vs. v < length st"
  shows "hm_struct T \<Longrightarrow> Size_hm T + int (length vs) \<le> 2 * Capacity T \<Longrightarrow>
    \<exists>T'. hm_exec st (Rehash vs T) = Some T' \<and> hm_struct T'
      \<and> Capacity T' = Capacity T \<and> Size_hm T' \<le> Size_hm T + int (length vs)
      \<and> (\<forall>k w. (\<forall>v\<in>set vs. ID (st ! v) = k \<longrightarrow> v = w)
             \<and> ((\<exists>v\<in>set vs. ID (st ! v) = k \<and> k \<noteq> []) \<or> hm_lookup T k = Some w)
             \<longrightarrow> hm_lookup T' k = Some w)
      \<and> (\<forall>k. (\<forall>v\<in>set vs. ID (st ! v) \<noteq> k \<or> k = []) \<longrightarrow> hm_lookup T' k = hm_lookup T k)
      \<and> (\<forall>b'\<in>set (Buckets T'). \<forall>e\<in>set b'.
            (Value e \<in> set vs \<and> Key e = ID (st ! Value e) \<and> Key e \<noteq> [])
            \<or> (\<exists>b\<in>set (Buckets T). e \<in> set b))"
  using vs
proof (induction vs arbitrary: T)
  case Nil
  have "\<forall>b'\<in>set (Buckets T). \<forall>e\<in>set b'. \<exists>b\<in>set (Buckets T). e \<in> set b" by blast
  with Nil show ?case by (simp add: hm_exec_Rehash_Nil)
next
  case (Cons v vs)
  have v: "v < length st" and vs': "\<forall>v\<in>set vs. v < length st" using Cons.prems(3) by simp_all
  have small: "Size_hm T + 1 \<le> 2 * Capacity T" using Cons.prems(2) by simp
  from Cons.prems(1) v small obtain T1 where
    t1: "hm_exec st (CallPut v T) = Some T1" "hm_struct T1" "Capacity T1 = Capacity T"
        "Size_hm T \<le> Size_hm T1" "Size_hm T1 \<le> Size_hm T + 1"
        "\<forall>k. hm_lookup T1 k = (if k = ID (st ! v) \<and> k \<noteq> [] then Some v else hm_lookup T k)"
        "\<forall>b'\<in>set (Buckets T1). \<forall>e\<in>set b'.
          (Value e = v \<and> Key e = ID (st ! v) \<and> Key e \<noteq> []) \<or> (\<exists>b\<in>set (Buckets T). e \<in> set b)"
    by (rule Put_small)
  note t16 = t1(6) [rule_format]
  have small1: "Size_hm T1 + int (length vs) \<le> 2 * Capacity T1"
    using t1(3,5) Cons.prems(2) by simp
  from Cons.IH [OF t1(2) small1 vs'] obtain T' where
    T': "hm_exec st (Rehash vs T1) = Some T' \<and> hm_struct T'
      \<and> Capacity T' = Capacity T1 \<and> Size_hm T' \<le> Size_hm T1 + int (length vs)
      \<and> (\<forall>k w. (\<forall>v\<in>set vs. ID (st ! v) = k \<longrightarrow> v = w)
             \<and> ((\<exists>v\<in>set vs. ID (st ! v) = k \<and> k \<noteq> []) \<or> hm_lookup T1 k = Some w)
             \<longrightarrow> hm_lookup T' k = Some w)
      \<and> (\<forall>k. (\<forall>v\<in>set vs. ID (st ! v) \<noteq> k \<or> k = []) \<longrightarrow> hm_lookup T' k = hm_lookup T1 k)
      \<and> (\<forall>b'\<in>set (Buckets T'). \<forall>e\<in>set b'.
            (Value e \<in> set vs \<and> Key e = ID (st ! Value e) \<and> Key e \<noteq> [])
            \<or> (\<exists>b\<in>set (Buckets T1). e \<in> set b))" ..
  then have t': "hm_exec st (Rehash vs T1) = Some T'" "hm_struct T'" "Capacity T' = Capacity T1"
        "Size_hm T' \<le> Size_hm T1 + int (length vs)"
        "\<And>k w. (\<forall>v\<in>set vs. ID (st ! v) = k \<longrightarrow> v = w)
             \<and> ((\<exists>v\<in>set vs. ID (st ! v) = k \<and> k \<noteq> []) \<or> hm_lookup T1 k = Some w)
             \<Longrightarrow> hm_lookup T' k = Some w"
        "\<And>k. (\<forall>v\<in>set vs. ID (st ! v) \<noteq> k \<or> k = []) \<Longrightarrow> hm_lookup T' k = hm_lookup T1 k"
        "\<forall>b'\<in>set (Buckets T'). \<forall>e\<in>set b'.
            (Value e \<in> set vs \<and> Key e = ID (st ! Value e) \<and> Key e \<noteq> [])
            \<or> (\<exists>b\<in>set (Buckets T1). e \<in> set b)"
    by blast+
  have run: "hm_exec st (Rehash (v # vs) T) = Some T'"
    using t1(1) t'(1) by (simp add: hm_exec_Rehash_Cons)
  have a: "\<forall>k w. (\<forall>u\<in>set (v # vs). ID (st ! u) = k \<longrightarrow> u = w)
             \<and> ((\<exists>u\<in>set (v # vs). ID (st ! u) = k \<and> k \<noteq> []) \<or> hm_lookup T k = Some w)
             \<longrightarrow> hm_lookup T' k = Some w"
  proof (intro allI impI)
    fix k w
    assume h: "(\<forall>u\<in>set (v # vs). ID (st ! u) = k \<longrightarrow> u = w)
        \<and> ((\<exists>u\<in>set (v # vs). ID (st ! u) = k \<and> k \<noteq> []) \<or> hm_lookup T k = Some w)"
    show "hm_lookup T' k = Some w"
    proof (rule t'(5), intro conjI)
      show "\<forall>u\<in>set vs. ID (st ! u) = k \<longrightarrow> u = w" using h by simp
      show "(\<exists>u\<in>set vs. ID (st ! u) = k \<and> k \<noteq> []) \<or> hm_lookup T1 k = Some w"
      proof (cases "k = ID (st ! v) \<and> k \<noteq> []")
        case True
        then have "v = w" using h by simp
        moreover have "hm_lookup T1 k = Some v" by (subst t16) (rule if_P [OF True])
        ultimately show ?thesis by simp
      next
        case False
        have "hm_lookup T1 k = hm_lookup T k" by (subst t16) (rule if_not_P [OF False])
        then show ?thesis using h False by auto
      qed
    qed
  qed
  have b: "\<forall>k. (\<forall>u\<in>set (v # vs). ID (st ! u) \<noteq> k \<or> k = []) \<longrightarrow> hm_lookup T' k = hm_lookup T k"
  proof (intro allI impI)
    fix k assume h: "\<forall>u\<in>set (v # vs). ID (st ! u) \<noteq> k \<or> k = []"
    then have "hm_lookup T' k = hm_lookup T1 k" by (intro t'(6)) simp
    moreover have "\<not> (k = ID (st ! v) \<and> k \<noteq> [])" using h by auto
    then have "hm_lookup T1 k = hm_lookup T k" by (subst t16) (rule if_not_P)
    ultimately show "hm_lookup T' k = hm_lookup T k" by simp
  qed
  have c: "\<forall>b'\<in>set (Buckets T'). \<forall>e\<in>set b'.
            (Value e \<in> set (v # vs) \<and> Key e = ID (st ! Value e) \<and> Key e \<noteq> [])
            \<or> (\<exists>b\<in>set (Buckets T). e \<in> set b)"
  proof (intro ballI)
    fix b' e assume be: "b' \<in> set (Buckets T')" "e \<in> set b'"
    from t'(7) be consider
      (new) "Value e \<in> set vs \<and> Key e = ID (st ! Value e) \<and> Key e \<noteq> []"
      | (old) "\<exists>b\<in>set (Buckets T1). e \<in> set b" by blast
    then show "(Value e \<in> set (v # vs) \<and> Key e = ID (st ! Value e) \<and> Key e \<noteq> [])
            \<or> (\<exists>b\<in>set (Buckets T). e \<in> set b)"
    proof cases
      case new
      then show ?thesis by auto
    next
      case old
      then obtain b1 where "b1 \<in> set (Buckets T1)" "e \<in> set b1" by blast
      with t1(7) have "(Value e = v \<and> Key e = ID (st ! v) \<and> Key e \<noteq> [])
          \<or> (\<exists>b\<in>set (Buckets T). e \<in> set b)" by blast
      then show ?thesis by auto
    qed
  qed
  have d: "Size_hm T' \<le> Size_hm T + int (length (v # vs))" using t'(4) t1(5) by simp
  have e: "Capacity T' = Capacity T" using t'(3) t1(3) by simp
  show ?case
    by (intro exI [of _ T'] conjI) (fact run t'(2) e d a b c)+
qed

lemma hm_lookup_empty:
  "hm_lookup \<lparr>Buckets = replicate n [], Size_hm = 0, Capacity = c\<rparr> k = None"
  by (auto simp: hm_lookup_def bucketAt_def split: option.splits)

lemma hm_struct_empty:
  assumes "c = 2 ^ j" "j \<le> 45"
  shows "hm_struct \<lparr>Buckets = replicate (nat c) [], Size_hm = 0, Capacity = c\<rparr>"
  using assms by (auto simp: hm_struct_def)

lemma double_pow2:
  assumes "(c::int) = 2 ^ j" "c * 2 \<le> 2 ^ 45"
  shows "c * 2 = 2 ^ Suc j \<and> Suc j \<le> 45"
proof -
  have "(2::int) ^ Suc j \<le> 2 ^ 45" using assms by simp
  then have "Suc j \<le> 45" by (simp only: power_increasing_iff)
  then show ?thesis using assms by simp
qed

lemma resize_generic:
  assumes st: "hm_struct shm" and vals: "vals_ok st shm"
    and sz: "Size_hm shm \<le> 4 * Capacity shm" and cap: "Capacity shm * 2 \<le> 2 ^ 45"
  obtains shm' where "hm_exec st (CallResize shm) = Some shm'" "hm_struct shm'"
      "Capacity shm' = 2 * Capacity shm" "Size_hm shm' \<le> Size_hm shm"
      "\<forall>k w. (\<forall>b\<in>set (Buckets shm). \<forall>e\<in>set b. ID (st ! Value e) = k \<longrightarrow> Value e = w)
             \<and> (\<exists>b\<in>set (Buckets shm). \<exists>e\<in>set b. ID (st ! Value e) = k \<and> k \<noteq> [])
             \<longrightarrow> hm_lookup shm' k = Some w"
      "\<forall>k. (\<forall>b\<in>set (Buckets shm). \<forall>e\<in>set b. ID (st ! Value e) \<noteq> k \<or> k = [])
             \<longrightarrow> hm_lookup shm' k = None"
      "\<forall>b'\<in>set (Buckets shm'). \<forall>e\<in>set b'.
            (\<exists>b\<in>set (Buckets shm). \<exists>e0\<in>set b. Value e = Value e0)
            \<and> Key e = ID (st ! Value e) \<and> Key e \<noteq> []"
proof -
  let ?c = "Capacity shm"
  let ?vs = "map Value (concat (Buckets shm))"
  let ?T = "\<lparr>Buckets = replicate (nat (?c * 2)) [], Size_hm = 0, Capacity = ?c * 2\<rparr>"
  from st obtain j where j: "j \<le> 45" "?c = 2 ^ j" by (auto simp: hm_struct_def)
  have len: "length (Buckets shm) = nat ?c" and size: "Size_hm shm = int (length (concat (Buckets shm)))"
    using st by (simp_all add: hm_struct_def)
  have cpos: "0 < ?c" using j by simp
  from double_pow2 [OF j(2) cap] have sT: "hm_struct ?T" by (intro hm_struct_empty [of _ "Suc j"]) simp_all
  have smallT: "Size_hm ?T + int (length ?vs) \<le> 2 * Capacity ?T" using sz size by simp
  have vsok: "\<forall>v\<in>set ?vs. v < length st" using vals by (auto simp: vals_ok_def)
  from Rehash_small [OF vsok sT smallT] obtain T' where
    T': "hm_exec st (Rehash ?vs ?T) = Some T' \<and> hm_struct T'
      \<and> Capacity T' = Capacity ?T \<and> Size_hm T' \<le> Size_hm ?T + int (length ?vs)
      \<and> (\<forall>k w. (\<forall>v\<in>set ?vs. ID (st ! v) = k \<longrightarrow> v = w)
             \<and> ((\<exists>v\<in>set ?vs. ID (st ! v) = k \<and> k \<noteq> []) \<or> hm_lookup ?T k = Some w)
             \<longrightarrow> hm_lookup T' k = Some w)
      \<and> (\<forall>k. (\<forall>v\<in>set ?vs. ID (st ! v) \<noteq> k \<or> k = []) \<longrightarrow> hm_lookup T' k = hm_lookup ?T k)
      \<and> (\<forall>b'\<in>set (Buckets T'). \<forall>e\<in>set b'.
            (Value e \<in> set ?vs \<and> Key e = ID (st ! Value e) \<and> Key e \<noteq> [])
            \<or> (\<exists>b\<in>set (Buckets ?T). e \<in> set b))" ..
  note c1 = T' [THEN conjunct1]
    and c2 = T' [THEN conjunct2, THEN conjunct1]
    and c3 = T' [THEN conjunct2, THEN conjunct2, THEN conjunct1]
    and c4 = T' [THEN conjunct2, THEN conjunct2, THEN conjunct2, THEN conjunct1]
    and c5 = T' [THEN conjunct2, THEN conjunct2, THEN conjunct2, THEN conjunct2, THEN conjunct1]
    and c6 = T' [THEN conjunct2, THEN conjunct2, THEN conjunct2, THEN conjunct2, THEN conjunct2,
                 THEN conjunct1]
    and c7 = T' [THEN conjunct2, THEN conjunct2, THEN conjunct2, THEN conjunct2, THEN conjunct2,
                 THEN conjunct2]
  have t: "hm_exec st (Rehash ?vs ?T) = Some T'" "hm_struct T'" "Capacity T' = ?c * 2"
      "Size_hm T' \<le> int (length ?vs)"
    using c1 c2 c3 c4 by simp_all
  have t5: "\<And>k w. (\<forall>v\<in>set ?vs. ID (st ! v) = k \<longrightarrow> v = w)
             \<and> ((\<exists>v\<in>set ?vs. ID (st ! v) = k \<and> k \<noteq> []) \<or> hm_lookup ?T k = Some w)
             \<Longrightarrow> hm_lookup T' k = Some w"
    using c5 by blast
  have t6: "\<And>k. (\<forall>v\<in>set ?vs. ID (st ! v) \<noteq> k \<or> k = []) \<Longrightarrow> hm_lookup T' k = hm_lookup ?T k"
    using c6 by blast
  note t7 = c7
  have take_all: "take (nat ?c) (Buckets shm) = Buckets shm" using len by simp
  have nopanic: "\<not> makePanics (?c * 2)" using cap cpos by (simp add: makePanics_def)
  have run: "hm_exec st (CallResize shm) = Some T'"
    unfolding hm_exec_Resize take_all using nopanic t(1) by simp
  have invs: "v \<in> set ?vs \<longleftrightarrow> (\<exists>b\<in>set (Buckets shm). \<exists>e\<in>set b. Value e = v)" for v
    by auto
  have a: "\<forall>k w. (\<forall>b\<in>set (Buckets shm). \<forall>e\<in>set b. ID (st ! Value e) = k \<longrightarrow> Value e = w)
             \<and> (\<exists>b\<in>set (Buckets shm). \<exists>e\<in>set b. ID (st ! Value e) = k \<and> k \<noteq> [])
             \<longrightarrow> hm_lookup T' k = Some w"
  proof (intro allI impI)
    fix k w
    assume h: "(\<forall>b\<in>set (Buckets shm). \<forall>e\<in>set b. ID (st ! Value e) = k \<longrightarrow> Value e = w)
             \<and> (\<exists>b\<in>set (Buckets shm). \<exists>e\<in>set b. ID (st ! Value e) = k \<and> k \<noteq> [])"
    show "hm_lookup T' k = Some w"
    proof (rule t5, intro conjI)
      show "\<forall>v\<in>set ?vs. ID (st ! v) = k \<longrightarrow> v = w" using h by auto
      show "(\<exists>v\<in>set ?vs. ID (st ! v) = k \<and> k \<noteq> []) \<or> hm_lookup ?T k = Some w"
        using h by (intro disjI1) (auto simp: invs)
    qed
  qed
  have b: "\<forall>k. (\<forall>b\<in>set (Buckets shm). \<forall>e\<in>set b. ID (st ! Value e) \<noteq> k \<or> k = [])
             \<longrightarrow> hm_lookup T' k = None"
  proof (intro allI impI)
    fix k
    assume h: "\<forall>b\<in>set (Buckets shm). \<forall>e\<in>set b. ID (st ! Value e) \<noteq> k \<or> k = []"
    have "hm_lookup T' k = hm_lookup ?T k" using h by (intro t6) auto
    then show "hm_lookup T' k = None" by (simp add: hm_lookup_empty)
  qed
  have c: "\<forall>b'\<in>set (Buckets T'). \<forall>e\<in>set b'.
            (\<exists>b\<in>set (Buckets shm). \<exists>e0\<in>set b. Value e = Value e0)
            \<and> Key e = ID (st ! Value e) \<and> Key e \<noteq> []"
  proof (intro ballI)
    fix b' e assume "b' \<in> set (Buckets T')" "e \<in> set b'"
    with t7 have "(Value e \<in> set ?vs \<and> Key e = ID (st ! Value e) \<and> Key e \<noteq> [])
            \<or> (\<exists>b\<in>set (Buckets ?T). e \<in> set b)" by blast
    moreover have "\<not> (\<exists>b\<in>set (Buckets ?T). e \<in> set b)" by simp
    ultimately have "Value e \<in> set ?vs \<and> Key e = ID (st ! Value e) \<and> Key e \<noteq> []"
      by blast
    then show "(\<exists>b\<in>set (Buckets shm). \<exists>e0\<in>set b. Value e = Value e0)
            \<and> Key e = ID (st ! Value e) \<and> Key e \<noteq> []"
      using invs [of "Value e"] by auto
  qed
  have d: "Size_hm T' \<le> Size_hm shm" using t(4) size by simp
  have e: "Capacity T' = 2 * ?c" using t(3) by simp
  show thesis by (rule that [OF run t(2) e d a b c])
qed

lemma hm_lookup_entry:
  assumes st: "hm_struct shm" and b: "b \<in> set (Buckets shm)" and e: "e \<in> set b"
  shows "hm_lookup shm (Key e) = Some (Value e)"
proof -
  from b obtain i where i: "i < length (Buckets shm)" "b = Buckets shm ! i"
    by (auto simp: in_set_conv_nth)
  have h: "hash shm (Key e) = Some (int i)" and d: "distinct (map Key b)"
    using st i e by (auto simp: hm_struct_def)
  have "bucketAt shm (Key e) = Some (i, b)" using h i by (simp add: bucketAt_def)
  then show ?thesis using chainGet_distinct [OF d e] by (simp add: hm_lookup_def)
qed

lemma hm_lookup_Some:
  assumes st: "hm_struct shm" and l: "hm_lookup shm k = Some w"
  shows "\<exists>b\<in>set (Buckets shm). \<exists>e\<in>set b. Key e = k \<and> Value e = w"
proof -
  from bucketAt_struct [OF st, of k] obtain i where
    i: "i < length (Buckets shm)" "bucketAt shm k = Some (i, Buckets shm ! i)" by blast
  with l have "chainGet k (Buckets shm ! i) = Some w" by (simp add: hm_lookup_def)
  from chainGet_Some_in [OF this] nth_mem [OF i(1)] show ?thesis by blast
qed

lemma hm_lookup_None:
  assumes st: "hm_struct shm" and l: "hm_lookup shm k = None"
    and b: "b \<in> set (Buckets shm)" and e: "e \<in> set b"
  shows "Key e \<noteq> k"
  using hm_lookup_entry [OF st b e] l by auto

lemma Get_lookup:
  assumes st: "hm_struct shm" and k: "k \<noteq> []"
  shows "Get k shm = Some (case hm_lookup shm k of None \<Rightarrow> Inl NotFound | Some r \<Rightarrow> Inr r)"
proof -
  from bucketAt_struct [OF st, of k] obtain i where
    "bucketAt shm k = Some (i, Buckets shm ! i)" by blast
  then show ?thesis using k by (simp add: Get_def hm_lookup_def split: option.splits)
qed

lemma GetByTitle_lookup:
  assumes st: "hm_struct shm" and k: "k \<noteq> []"
  shows "GetByTitle k shm = Some (case hm_lookup shm k of None \<Rightarrow> Inl NotFound | Some r \<Rightarrow> Inr r)"
proof -
  from bucketAt_struct [OF st, of k] obtain i where
    "bucketAt shm k = Some (i, Buckets shm ! i)" by blast
  then show ?thesis using k by (simp add: GetByTitle_def hm_lookup_def split: option.splits)
qed

lemma nonempty_count_le: "nonempty_count shm \<le> int (length (Buckets shm))"
  by (simp add: nonempty_count_def)

lemma nonempty_count_ge: "0 \<le> nonempty_count shm"
  by (simp add: nonempty_count_def)

lemma hm_inv_alt:
  "hm_inv shm \<longleftrightarrow> hm_struct shm \<and> Size_hm shm \<le> 2 * Capacity shm + nonempty_count shm"
  by (simp add: hm_inv_def nonempty_count_def)

text \<open>The resize check after \<open>putKey\<close>, on any table.\<close>

lemma put_check_generic:
  assumes inv: "hm_inv shm" and vals: "vals_ok st shm" and v: "v < length st"
    and p: "putKey k v shm = Some (T, chk)" and sT: "hm_struct T"
    and cT: "Capacity T = Capacity shm"
    and sz: "if chk then Size_hm T = Size_hm shm + 1 \<and> nonempty_count T = nonempty_count shm
        else Size_hm T - nonempty_count T = Size_hm shm - nonempty_count shm
             \<and> Size_hm shm \<le> Size_hm T \<and> Size_hm T \<le> Size_hm shm + 1"
    and ents: "\<forall>b'\<in>set (Buckets T). \<forall>e\<in>set b'.
          (Key e = k \<and> Value e = v) \<or> (\<exists>b\<in>set (Buckets shm). e \<in> set b)"
  shows "vals_ok st T
    \<and> (if chk \<and> Size_hm T > Capacity T * 2
        then Size_hm T \<le> 4 * Capacity T
        else hm_inv T)"
proof
  show "vals_ok st T"
    unfolding vals_ok_def
  proof (intro ballI)
    fix b' e assume be: "b' \<in> set (Buckets T)" "e \<in> set b'"
    with ents have "(Key e = k \<and> Value e = v) \<or> (\<exists>b\<in>set (Buckets shm). e \<in> set b)" by blast
    then show "Value e < length st"
    proof
      assume "Key e = k \<and> Value e = v"
      then show ?thesis using v by simp
    next
      assume "\<exists>b\<in>set (Buckets shm). e \<in> set b"
      then show ?thesis using vals by (auto simp: vals_ok_def)
    qed
  qed
  from inv have s: "hm_struct shm" and b: "Size_hm shm \<le> 2 * Capacity shm + nonempty_count shm"
    by (simp_all add: hm_inv_alt)
  from s obtain j where "Capacity shm = 2 ^ j" by (auto simp: hm_struct_def)
  then have c1: "1 \<le> Capacity shm" by simp
  have "int (length (Buckets shm)) = Capacity shm" using s c1 by (simp add: hm_struct_def)
  then have ne: "nonempty_count shm \<le> Capacity shm"
    using nonempty_count_le [of shm] by simp
  show "if chk \<and> Size_hm T > Capacity T * 2 then Size_hm T \<le> 4 * Capacity T else hm_inv T"
  proof (cases "chk \<and> Size_hm T > Capacity T * 2")
    case True
    then have "Size_hm T = Size_hm shm + 1" using sz by simp
    with b ne c1 cT have "Size_hm T \<le> 4 * Capacity T" by simp
    with True show ?thesis by simp
  next
    case False
    have "Size_hm T \<le> 2 * Capacity T + nonempty_count T"
    proof (cases chk)
      case True
      with False have "Size_hm T \<le> 2 * Capacity T" by simp
      with nonempty_count_ge [of T] show ?thesis by linarith
    next
      case F: False
      with sz b cT show ?thesis by simp
    qed
    with sT have "hm_inv T" by (simp add: hm_inv_alt)
    with False show ?thesis by auto
  qed
qed

lemma PutByTitle_inv:
  assumes inv: "hm_inv shm" and vals: "vals_ok st shm" and v: "v < length st"
  shows "(PutByTitle st v shm = None \<and> 2 ^ 45 < Capacity shm * 2)
       \<or> (\<exists>shm'. PutByTitle st v shm = Some shm' \<and> hm_inv shm' \<and> vals_ok st shm')"
proof (cases "Title (st ! v) = []")
  case True
  then have "PutByTitle st v shm = Some shm"
    using v by (simp add: PutByTitle_def hm_exec_PutByTitle deref_def)
  with inv vals show ?thesis by simp
next
  case False
  from inv have s: "hm_struct shm" by (simp add: hm_inv_alt)
  from s obtain T chk where
    p: "putKey (Title (st ! v)) v shm = Some (T, chk)" "hm_struct T" "Capacity T = Capacity shm"
       "\<forall>k'. hm_lookup T k' = (if k' = Title (st ! v) then Some v else hm_lookup shm k')"
       "if chk then Size_hm T = Size_hm shm + 1 \<and> nonempty_count T = nonempty_count shm
        else Size_hm T - nonempty_count T = Size_hm shm - nonempty_count shm
             \<and> Size_hm shm \<le> Size_hm T \<and> Size_hm T \<le> Size_hm shm + 1"
       "\<forall>b'\<in>set (Buckets T). \<forall>e\<in>set b'.
          (Key e = Title (st ! v) \<and> Value e = v) \<or> (\<exists>b\<in>set (Buckets shm). e \<in> set b)"
    by (rule putKey_struct [where k = "Title (st ! v)" and v = v])
  from put_check_generic [OF inv vals v p(1,2,3,5,6)]
  have vT: "vals_ok st T"
    and chk: "if chk \<and> Size_hm T > Capacity T * 2 then Size_hm T \<le> 4 * Capacity T else hm_inv T"
    by simp_all
  have run: "PutByTitle st v shm =
     (if chk \<and> Size_hm T > Capacity T * 2 then hm_exec st (CallResize T) else Some T)"
    using v False p(1) by (simp add: PutByTitle_def hm_exec_PutByTitle deref_def)
  show ?thesis
  proof (cases "chk \<and> Size_hm T > Capacity T * 2")
    case F: False
    with chk run vT show ?thesis by simp
  next
    case True
    with chk have sz4: "Size_hm T \<le> 4 * Capacity T" by simp
    show ?thesis
    proof (cases "Capacity T * 2 \<le> 2 ^ 45")
      case big: False
      have "0 < Capacity T" using p(2) by (auto simp: hm_struct_def)
      then have "hm_exec st (CallResize T) = None"
        using big by (simp add: hm_exec_Resize makePanics_def)
      with run True big p(3) show ?thesis by simp
    next
      case ok: True
      from p(2) vT sz4 ok obtain shm' where
        r: "hm_exec st (CallResize T) = Some shm'" "hm_struct shm'"
           "Capacity shm' = 2 * Capacity T" "Size_hm shm' \<le> Size_hm T"
           "\<forall>k w. (\<forall>b\<in>set (Buckets T). \<forall>e\<in>set b. ID (st ! Value e) = k \<longrightarrow> Value e = w)
             \<and> (\<exists>b\<in>set (Buckets T). \<exists>e\<in>set b. ID (st ! Value e) = k \<and> k \<noteq> [])
             \<longrightarrow> hm_lookup shm' k = Some w"
           "\<forall>k. (\<forall>b\<in>set (Buckets T). \<forall>e\<in>set b. ID (st ! Value e) \<noteq> k \<or> k = [])
             \<longrightarrow> hm_lookup shm' k = None"
           "\<forall>b'\<in>set (Buckets shm'). \<forall>e\<in>set b'.
            (\<exists>b\<in>set (Buckets T). \<exists>e0\<in>set b. Value e = Value e0)
            \<and> Key e = ID (st ! Value e) \<and> Key e \<noteq> []"
        by (rule resize_generic)
      have "hm_inv shm'"
        using r(2,3,4) sz4 nonempty_count_ge [of shm'] by (simp add: hm_inv_alt)
      moreover have "vals_ok st shm'"
        unfolding vals_ok_def
      proof (intro ballI)
        fix b' e assume "b' \<in> set (Buckets shm')" "e \<in> set b'"
        with r(7) obtain b e0 where "b \<in> set (Buckets T)" "e0 \<in> set b" "Value e = Value e0"
          by blast
        then show "Value e < length st" using vT by (auto simp: vals_ok_def)
      qed
      ultimately show ?thesis using run True r(1) by simp
    qed
  qed
qed

lemma keyed_vals_ok: "keyed_by_id st shm \<Longrightarrow> vals_ok st shm"
  by (simp add: keyed_by_id_def vals_ok_def)

lemma Put_by_id:
  assumes inv: "hm_inv shm" and kid: "keyed_by_id st shm" and v: "v < length st"
    and idne: "ID (st ! v) \<noteq> []"
  shows "(Put st v shm = None \<and> 2 ^ 45 < Capacity shm * 2)
       \<or> (\<exists>shm'. Put st v shm = Some shm' \<and> hm_inv shm' \<and> keyed_by_id st shm'
             \<and> (\<forall>k. hm_lookup shm' k = (if k = ID (st ! v) then Some v else hm_lookup shm k)))"
proof -
  let ?k = "ID (st ! v)"
  from inv have s: "hm_struct shm" by (simp add: hm_inv_alt)
  from s obtain T chk where
    p: "putKey ?k v shm = Some (T, chk)" "hm_struct T" "Capacity T = Capacity shm"
       "\<forall>k'. hm_lookup T k' = (if k' = ?k then Some v else hm_lookup shm k')"
       "if chk then Size_hm T = Size_hm shm + 1 \<and> nonempty_count T = nonempty_count shm
        else Size_hm T - nonempty_count T = Size_hm shm - nonempty_count shm
             \<and> Size_hm shm \<le> Size_hm T \<and> Size_hm T \<le> Size_hm shm + 1"
       "\<forall>b'\<in>set (Buckets T). \<forall>e\<in>set b'.
          (Key e = ?k \<and> Value e = v) \<or> (\<exists>b\<in>set (Buckets shm). e \<in> set b)"
    by (rule putKey_struct [where k = ?k and v = v])
  from put_check_generic [OF inv keyed_vals_ok [OF kid] v p(1,2,3,5,6)]
  have vT: "vals_ok st T"
    and chk: "if chk \<and> Size_hm T > Capacity T * 2 then Size_hm T \<le> 4 * Capacity T else hm_inv T"
    by simp_all
  have kT: "keyed_by_id st T"
    unfolding keyed_by_id_def
  proof (intro ballI)
    fix b' e assume be: "b' \<in> set (Buckets T)" "e \<in> set b'"
    with p(6) have "(Key e = ?k \<and> Value e = v) \<or> (\<exists>b\<in>set (Buckets shm). e \<in> set b)" by blast
    then show "Value e < length st \<and> Key e = ID (st ! Value e) \<and> Key e \<noteq> []"
    proof
      assume "Key e = ?k \<and> Value e = v"
      then show ?thesis using v idne by simp
    next
      assume "\<exists>b\<in>set (Buckets shm). e \<in> set b"
      then show ?thesis using kid by (auto simp: keyed_by_id_def)
    qed
  qed
  have run: "Put st v shm =
     (if chk \<and> Size_hm T > Capacity T * 2 then hm_exec st (CallResize T) else Some T)"
    using v idne p(1) by (simp add: Put_def hm_exec_Put deref_def)
  show ?thesis
  proof (cases "chk \<and> Size_hm T > Capacity T * 2")
    case False
    with chk have "hm_inv T" by auto
    moreover have "Put st v shm = Some T" unfolding run using False by (rule if_not_P)
    ultimately show ?thesis using kT p(4) by simp
  next
    case True
    with chk have sz4: "Size_hm T \<le> 4 * Capacity T" by simp
    show ?thesis
    proof (cases "Capacity T * 2 \<le> 2 ^ 45")
      case big: False
      have "0 < Capacity T" using p(2) by (auto simp: hm_struct_def)
      then have "hm_exec st (CallResize T) = None"
        using big by (simp add: hm_exec_Resize makePanics_def)
      moreover have "Put st v shm = hm_exec st (CallResize T)" unfolding run using True by (rule if_P)
      ultimately show ?thesis using big p(3) by simp
    next
      case ok: True
      from p(2) vT sz4 ok obtain shm' where
        r: "hm_exec st (CallResize T) = Some shm'" "hm_struct shm'"
           "Capacity shm' = 2 * Capacity T" "Size_hm shm' \<le> Size_hm T"
           "\<forall>k w. (\<forall>b\<in>set (Buckets T). \<forall>e\<in>set b. ID (st ! Value e) = k \<longrightarrow> Value e = w)
             \<and> (\<exists>b\<in>set (Buckets T). \<exists>e\<in>set b. ID (st ! Value e) = k \<and> k \<noteq> [])
             \<longrightarrow> hm_lookup shm' k = Some w"
           "\<forall>k. (\<forall>b\<in>set (Buckets T). \<forall>e\<in>set b. ID (st ! Value e) \<noteq> k \<or> k = [])
             \<longrightarrow> hm_lookup shm' k = None"
           "\<forall>b'\<in>set (Buckets shm'). \<forall>e\<in>set b'.
            (\<exists>b\<in>set (Buckets T). \<exists>e0\<in>set b. Value e = Value e0)
            \<and> Key e = ID (st ! Value e) \<and> Key e \<noteq> []"
        by (rule resize_generic)
      have inv': "hm_inv shm'"
        using r(2,3,4) sz4 nonempty_count_ge [of shm'] by (simp add: hm_inv_alt)
      have kid': "keyed_by_id st shm'"
        unfolding keyed_by_id_def
      proof (intro ballI)
        fix b' e assume "b' \<in> set (Buckets shm')" "e \<in> set b'"
        with r(7) have k: "Key e = ID (st ! Value e) \<and> Key e \<noteq> []"
          and "\<exists>b\<in>set (Buckets T). \<exists>e0\<in>set b. Value e = Value e0" by blast+
        then obtain b e0 where "b \<in> set (Buckets T)" "e0 \<in> set b" "Value e = Value e0" by blast
        then have "Value e < length st" using vT by (auto simp: vals_ok_def)
        with k show "Value e < length st \<and> Key e = ID (st ! Value e) \<and> Key e \<noteq> []" by blast
      qed
      have keyT: "\<And>b e. b \<in> set (Buckets T) \<Longrightarrow> e \<in> set b \<Longrightarrow>
                   Key e = ID (st ! Value e) \<and> Key e \<noteq> []"
        using kT unfolding keyed_by_id_def by blast
      have look: "hm_lookup shm' k = hm_lookup T k" for k
      proof (cases "hm_lookup T k")
        case None
        have "\<forall>b\<in>set (Buckets T). \<forall>e\<in>set b. ID (st ! Value e) \<noteq> k \<or> k = []"
        proof (intro ballI)
          fix b e assume be: "b \<in> set (Buckets T)" "e \<in> set b"
          from hm_lookup_None [OF p(2) None be] keyT [OF be]
          show "ID (st ! Value e) \<noteq> k \<or> k = []" by auto
        qed
        with r(6) None show ?thesis by simp
      next
        case (Some w)
        from hm_lookup_Some [OF p(2) Some] obtain b e where
          be: "b \<in> set (Buckets T)" "e \<in> set b" "Key e = k" "Value e = w" by blast
        have one: "\<forall>b\<in>set (Buckets T). \<forall>e\<in>set b. ID (st ! Value e) = k \<longrightarrow> Value e = w"
        proof (intro ballI impI)
          fix b' e' assume be': "b' \<in> set (Buckets T)" "e' \<in> set b'" "ID (st ! Value e') = k"
          then have "Key e' = k" using keyT [OF be'(1,2)] by auto
          with hm_lookup_entry [OF p(2) be'(1,2)] Some show "Value e' = w" by simp
        qed
        have ex: "\<exists>b\<in>set (Buckets T). \<exists>e\<in>set b. ID (st ! Value e) = k \<and> k \<noteq> []"
          using be keyT [OF be(1,2)] by auto
        from r(5) one ex have "hm_lookup shm' k = Some w" by blast
        with Some show ?thesis by simp
      qed
      have "\<forall>k. hm_lookup shm' k = (if k = ?k then Some v else hm_lookup shm k)"
        using look p(4) by simp
      moreover have "Put st v shm = hm_exec st (CallResize T)" unfolding run using True by (rule if_P)
      ultimately show ?thesis using r(1) inv' kid' by simp
    qed
  qed
qed

lemma chainDelete_None: "chainDelete k es = None \<longleftrightarrow> k \<notin> Key ` set es"
  by (induction es) (auto split: option.splits)

lemma chainDelete_Some:
  "chainDelete k es = Some (w, es') \<Longrightarrow>
     chainGet k es = Some w \<and> set es' \<subseteq> set es \<and> length es = Suc (length es')
     \<and> map Key es' = remove1 k (map Key es)"
  by (induction es arbitrary: es') (auto split: option.splits if_splits)

lemma chainDelete_get:
  "distinct (map Key es) \<Longrightarrow> chainDelete k es = Some (w, es') \<Longrightarrow>
     chainGet k' es' = (if k' = k then None else chainGet k' es)"
proof (induction es arbitrary: es')
  case Nil
  then show ?case by simp
next
  case (Cons e es)
  show ?case
  proof (cases "Key e = k")
    case True
    with Cons.prems have "es' = es" "k \<notin> Key ` set es" by auto
    then show ?thesis using True by (auto simp: chainGet_None)
  next
    case False
    with Cons.prems obtain es1 where es1: "chainDelete k es = Some (w, es1)" "es' = e # es1"
      by (auto split: option.splits)
    from Cons.IH [OF _ es1(1)] Cons.prems(1) es1(2) False show ?thesis by auto
  qed
qed

lemma Delete_absent:
  assumes st: "hm_struct shm" and k: "k \<noteq> []" and l: "hm_lookup shm k = None"
  shows "Delete k shm = Some (Inl NotFound, shm)"
proof -
  from bucketAt_struct [OF st, of k] obtain i where
    i: "bucketAt shm k = Some (i, Buckets shm ! i)" by blast
  with l have "chainGet k (Buckets shm ! i) = None" by (simp add: hm_lookup_def)
  then have "chainDelete k (Buckets shm ! i) = None"
    by (simp add: chainGet_None chainDelete_None)
  with i k show ?thesis by (simp add: Delete_def)
qed

lemma Delete_present:
  assumes inv: "hm_inv shm" and k: "k \<noteq> []" and l: "hm_lookup shm k = Some w"
  obtains shm' where "Delete k shm = Some (Inr w, shm')" "hm_inv shm'"
    "Capacity shm' = Capacity shm"
    "\<forall>k'. hm_lookup shm' k' = (if k' = k then None else hm_lookup shm k')"
    "\<forall>b'\<in>set (Buckets shm'). \<forall>e\<in>set b'. \<exists>b\<in>set (Buckets shm). e \<in> set b"
proof -
  from inv have st: "hm_struct shm"
    and bound: "Size_hm shm \<le> 2 * Capacity shm + nonempty_count shm"
    by (simp_all add: hm_inv_alt)
  from bucketAt_struct [OF st, of k] obtain i where
    i: "i < length (Buckets shm)" "hash shm k = Some (int i)"
       "bucketAt shm k = Some (i, Buckets shm ! i)" by blast
  let ?old = "Buckets shm ! i"
  from l i(3) have g: "chainGet k ?old = Some w" by (simp add: hm_lookup_def)
  then have "chainDelete k ?old \<noteq> None"
    using chainGet_None [of k ?old] by (simp add: chainDelete_None)
  then obtain w' new where d: "chainDelete k ?old = Some (w', new)" by auto
  from chainDelete_Some [OF d] g have w': "w' = w" and sub: "set new \<subseteq> set ?old"
    and len: "length ?old = Suc (length new)"
    and keys: "map Key new = remove1 k (map Key ?old)" by simp_all
  have dist: "distinct (map Key ?old)" using st i(1) by (simp add: hm_struct_def)
  let ?shm' = "shm\<lparr>Buckets := (Buckets shm)[i := new], Size_hm := Size_hm shm - 1\<rparr>"
  have run: "Delete k shm = Some (Inr w, ?shm')"
    using i(3) k d w' by (simp add: Delete_def)
  have hs: "\<And>k'. hash ?shm' k' = hash shm k'" by (rule hash_cap) simp
  have bk: "\<And>m. m < length (Buckets shm) \<Longrightarrow>
              Buckets ?shm' ! m = (if m = i then new else Buckets shm ! m)"
    by (simp add: nth_list_update)
  have struct: "hm_struct ?shm'"
    unfolding hm_struct_def
  proof (intro conjI allI impI)
    show "\<exists>j\<le>45. Capacity ?shm' = 2 ^ j" using st by (simp add: hm_struct_def)
    show "length (Buckets ?shm') = nat (Capacity ?shm')" using st by (simp add: hm_struct_def)
    show "Size_hm ?shm' = int (length (concat (Buckets ?shm')))"
      using st length_concat_update [OF i(1), of new] len by (simp add: hm_struct_def)
  next
    fix m assume "m < length (Buckets ?shm')"
    then have m: "m < length (Buckets shm)" by simp
    have old: "\<forall>e\<in>set (Buckets shm ! m). hash shm (Key e) = Some (int m)"
      "distinct (map Key (Buckets shm ! m))"
      using st m by (simp_all add: hm_struct_def)
    show "\<forall>e\<in>set (Buckets ?shm' ! m). hash ?shm' (Key e) = Some (int m)"
      using bk [OF m] old(1) sub by (auto simp: hs)
    show "distinct (map Key (Buckets ?shm' ! m))"
    proof (cases "m = i")
      case True
      then show ?thesis using bk [OF m] keys dist by (simp add: distinct_remove1)
    next
      case False
      then show ?thesis using bk [OF m] old(2) by simp
    qed
  qed
  have cnt: "nonempty_count ?shm' = nonempty_count shm - (if new = [] then 1 else 0)"
    using length_filter_update [OF i(1), of "\<lambda>b. b \<noteq> []" new] len
    by (auto simp: nonempty_count_def)
  have inv': "hm_inv ?shm'"
    using struct bound cnt by (simp add: hm_inv_alt)
  have look: "\<forall>k'. hm_lookup ?shm' k' = (if k' = k then None else hm_lookup shm k')"
  proof
    fix k'
    from bucketAt_struct [OF st, of k'] obtain i' where
      i': "i' < length (Buckets shm)" "hash shm k' = Some (int i')"
          "bucketAt shm k' = Some (i', Buckets shm ! i')" by blast
    have b': "bucketAt ?shm' k' = Some (i', Buckets ?shm' ! i')"
      using i'(1,2) by (simp add: bucketAt_def hs)
    show "hm_lookup ?shm' k' = (if k' = k then None else hm_lookup shm k')"
    proof (cases "i' = i")
      case True
      then show ?thesis
        using b' i'(3) bk [OF i'(1)] chainDelete_get [OF dist d, of k']
        by (simp add: hm_lookup_def)
    next
      case False
      then have "k' \<noteq> k" using i(2) i'(2) by auto
      then show ?thesis using False b' i'(3) bk [OF i'(1)] by (simp add: hm_lookup_def)
    qed
  qed
  have ents: "\<forall>b'\<in>set (Buckets ?shm'). \<forall>e\<in>set b'. \<exists>b\<in>set (Buckets shm). e \<in> set b"
  proof (intro ballI)
    fix b' e assume b': "b' \<in> set (Buckets ?shm')" and e: "e \<in> set b'"
    from b' obtain m where m: "m < length (Buckets shm)" "b' = Buckets ?shm' ! m"
      by (auto simp: in_set_conv_nth)
    show "\<exists>b\<in>set (Buckets shm). e \<in> set b"
    proof (cases "m = i")
      case True
      with m e bk [OF m(1)] sub have "e \<in> set ?old" by auto
      with nth_mem [OF i(1)] show ?thesis by blast
    next
      case False
      with m e bk [OF m(1)] have "e \<in> set (Buckets shm ! m)" by simp
      with nth_mem [OF m(1)] show ?thesis by blast
    qed
  qed
  have cap: "Capacity ?shm' = Capacity shm" by simp
  show thesis by (rule that [OF run inv' cap look ents])
qed

lemma chainUpdate_chainPut:
  "chainUpdate k v es = (if k \<in> Key ` set es then Some (fst (chainPut k v es)) else None)"
  by (induction es) (auto split: prod.splits)

lemma UpdateSong_absent:
  assumes st: "hm_struct shm" and v: "v < length st" and l: "hm_lookup shm (ID (st ! v)) = None"
  shows "\<exists>r. UpdateSong st v shm = Some (r, shm)"
proof (cases "ID (st ! v) = []")
  case True
  then show ?thesis using v by (simp add: UpdateSong_def deref_def)
next
  case False
  from bucketAt_struct [OF st, of "ID (st ! v)"] obtain i where
    i: "bucketAt shm (ID (st ! v)) = Some (i, Buckets shm ! i)" by blast
  with l have "chainGet (ID (st ! v)) (Buckets shm ! i) = None" by (simp add: hm_lookup_def)
  then have "chainUpdate (ID (st ! v)) v (Buckets shm ! i) = None"
    by (simp add: chainGet_None chainUpdate_chainPut)
  with i False v show ?thesis by (simp add: UpdateSong_def deref_def)
qed

lemma UpdateSong_present:
  assumes inv: "hm_inv shm" and v: "v < length st" and idne: "ID (st ! v) \<noteq> []"
    and l: "hm_lookup shm (ID (st ! v)) = Some w"
  obtains shm' where "UpdateSong st v shm = Some (None, shm')" "hm_inv shm'"
    "Capacity shm' = Capacity shm"
    "\<forall>k'. hm_lookup shm' k' = (if k' = ID (st ! v) then Some v else hm_lookup shm k')"
    "\<forall>b'\<in>set (Buckets shm'). \<forall>e\<in>set b'.
          (Key e = ID (st ! v) \<and> Value e = v) \<or> (\<exists>b\<in>set (Buckets shm). e \<in> set b)"
proof -
  let ?k = "ID (st ! v)"
  from inv have st: "hm_struct shm"
    and bound: "Size_hm shm \<le> 2 * Capacity shm + nonempty_count shm"
    by (simp_all add: hm_inv_alt)
  from bucketAt_struct [OF st, of ?k] obtain i where
    i: "i < length (Buckets shm)" "bucketAt shm ?k = Some (i, Buckets shm ! i)" by blast
  let ?old = "Buckets shm ! i"
  from l i(2) have "chainGet ?k ?old = Some w" by (simp add: hm_lookup_def)
  then have found: "?k \<in> Key ` set ?old" using chainGet_None [of ?k ?old] by auto
  then have ne: "?old \<noteq> []" by auto
  from st obtain T chk where
    p: "putKey ?k v shm = Some (T, chk)" "hm_struct T" "Capacity T = Capacity shm"
       "\<forall>k'. hm_lookup T k' = (if k' = ?k then Some v else hm_lookup shm k')"
       "if chk then Size_hm T = Size_hm shm + 1 \<and> nonempty_count T = nonempty_count shm
        else Size_hm T - nonempty_count T = Size_hm shm - nonempty_count shm
             \<and> Size_hm shm \<le> Size_hm T \<and> Size_hm T \<le> Size_hm shm + 1"
       "\<forall>b'\<in>set (Buckets T). \<forall>e\<in>set b'.
          (Key e = ?k \<and> Value e = v) \<or> (\<exists>b\<in>set (Buckets shm). e \<in> set b)"
    by (rule putKey_struct [where k = ?k and v = v])
  have pk: "putKey ?k v shm = Some (shm\<lparr>Buckets := (Buckets shm)[i := fst (chainPut ?k v ?old)]\<rparr>, False)"
    using i(2) ne found chainPut_found [of ?k v ?old]
    by (cases "chainPut ?k v ?old") (auto simp: putKey_def)
  with p(1) have T: "T = shm\<lparr>Buckets := (Buckets shm)[i := fst (chainPut ?k v ?old)]\<rparr>"
    and nchk: "\<not> chk" by simp_all
  have run: "UpdateSong st v shm = Some (None, T)"
    using v idne i(2) found T by (simp add: UpdateSong_def deref_def chainUpdate_chainPut)
  have "Size_hm T = Size_hm shm" using T by simp
  with p(5) nchk have "nonempty_count T = nonempty_count shm" by simp
  with bound p(2,3) \<open>Size_hm T = Size_hm shm\<close> have inv': "hm_inv T" by (simp add: hm_inv_alt)
  show thesis by (rule that [OF run inv' p(3) p(4) p(6)])
qed

subsection \<open>Moving and reversing\<close>

text \<open>
  C5. On a well-formed sequence with entities \<open>xs\<close> (what \<open>ToSlice\<close> returns),
  \<open>MoveSong from to\<close> fails with the index error, leaving the list as it is, when
  either index is outside \<open>[0, length)\<close>; does nothing when \<open>from = to\<close>; and otherwise
  succeeds with exactly the sequence obtained by removing the entity at \<open>from\<close> and
  inserting it again at \<open>to - 1\<close> when \<open>to > from\<close>, at \<open>to\<close> when \<open>to < from\<close>.
\<close>

theorem MoveSong_dll_spec:
  assumes inv: "dll_inv dll as"
  shows "ToSlice_dll dll = Some (songs_of dll as)
    \<and> (from < 0 \<or> int (length as) \<le> from \<or> to < 0 \<or> int (length as) \<le> to \<longrightarrow>
          MoveSong_dll from to dll = Some (Some IndexOutOfBounds, dll))
    \<and> (0 \<le> from \<and> from < int (length as) \<and> to = from \<longrightarrow>
          MoveSong_dll from to dll = Some (None, dll))
    \<and> (0 \<le> from \<and> from < int (length as) \<and> 0 \<le> to \<and> to < int (length as) \<and> from \<noteq> to \<longrightarrow>
          (\<exists>dll' bs. MoveSong_dll from to dll = Some (None, dll') \<and> dll_inv dll' bs
             \<and> ToSlice_dll dll'
                 = Some (insert_at (nat (if to > from then to - 1 else to))
                           (songs_of dll as ! nat from)
                           (remove_at (nat from) (songs_of dll as)))))"
proof (intro conjI impI)
  have L: "Length dll = int (length as)" using inv by (simp add: dll_inv_def)
  show "ToSlice_dll dll = Some (songs_of dll as)" using inv by (rule ToSlice_dll_inv)
  show "MoveSong_dll from to dll = Some (Some IndexOutOfBounds, dll)"
    if "from < 0 \<or> int (length as) \<le> from \<or> to < 0 \<or> int (length as) \<le> to"
    using that L by (auto simp: MoveSong_dll_def)
  show "MoveSong_dll from to dll = Some (None, dll)"
    if "0 \<le> from \<and> from < int (length as) \<and> to = from"
    using that L by (simp add: MoveSong_dll_def)
  show "\<exists>dll' bs. MoveSong_dll from to dll = Some (None, dll') \<and> dll_inv dll' bs
             \<and> ToSlice_dll dll'
                 = Some (insert_at (nat (if to > from then to - 1 else to))
                           (songs_of dll as ! nat from)
                           (remove_at (nat from) (songs_of dll as)))"
    if r: "0 \<le> from \<and> from < int (length as) \<and> 0 \<le> to \<and> to < int (length as) \<and> from \<noteq> to"
  proof -
    let ?t = "if to > from then to - 1 else to"
    let ?s = "Song (nodes dll ! (as ! nat from))"
    from r have f: "0 \<le> from" "from < int (length as)" by simp_all
    from DeleteSong_dll_inv [OF inv f] obtain d1 where
      d1: "DeleteSong_dll from dll = Some (Inr ?s, d1)"
          "dll_inv d1 (remove_at (nat from) as)"
          "songs_of d1 (remove_at (nat from) as) = remove_at (nat from) (songs_of dll as)"
      by blast
    have len1: "length (remove_at (nat from) as) = length as - 1"
      using f by (simp add: length_remove_at)
    have t: "0 \<le> ?t" "?t \<le> int (length (remove_at (nat from) as))"
      using r len1 by auto
    from AddSongAtIndex_inv [OF d1(2) t, of ?s] obtain d2 where
      d2: "AddSongAtIndex ?s ?t d1 = Some (None, d2)"
          "dll_inv d2 (insert_at (nat ?t) (length (nodes d1)) (remove_at (nat from) as))"
          "songs_of d2 (insert_at (nat ?t) (length (nodes d1)) (remove_at (nat from) as))
             = insert_at (nat ?t) ?s (songs_of d1 (remove_at (nat from) as))"
      by blast
    have run: "MoveSong_dll from to dll = Some (None, d2)"
      using r L d1(1) d2(1) by (simp add: MoveSong_dll_def)
    have s: "?s = songs_of dll as ! nat from" using f by (simp add: songs_of_def)
    have "ToSlice_dll d2 = Some (insert_at (nat ?t) (songs_of dll as ! nat from)
                                  (remove_at (nat from) (songs_of dll as)))"
      using ToSlice_dll_inv [OF d2(2)] d2(3) d1(3) s by simp
    with run d2(2) show ?thesis by blast
  qed
qed

theorem MoveSong_dll_spec_witness:
  "dll_inv \<lparr>nodes = [\<lparr>Song = 10, Next = Some 1, Prev = None\<rparr>,
                      \<lparr>Song = 11, Next = Some 2, Prev = Some 0\<rparr>,
                      \<lparr>Song = 12, Next = None, Prev = Some 1\<rparr>],
            Head = Some 0, Tail = Some 2, Length = 3\<rparr> [0, 1, 2]
   \<and> MoveSong_dll 0 5 \<lparr>nodes = [\<lparr>Song = 10, Next = Some 1, Prev = None\<rparr>,
                      \<lparr>Song = 11, Next = Some 2, Prev = Some 0\<rparr>,
                      \<lparr>Song = 12, Next = None, Prev = Some 1\<rparr>],
            Head = Some 0, Tail = Some 2, Length = 3\<rparr>
       = Some (Some IndexOutOfBounds, \<lparr>nodes = [\<lparr>Song = 10, Next = Some 1, Prev = None\<rparr>,
                      \<lparr>Song = 11, Next = Some 2, Prev = Some 0\<rparr>,
                      \<lparr>Song = 12, Next = None, Prev = Some 1\<rparr>],
            Head = Some 0, Tail = Some 2, Length = 3\<rparr>)
   \<and> (\<exists>dll'. MoveSong_dll 0 2 \<lparr>nodes = [\<lparr>Song = 10, Next = Some 1, Prev = None\<rparr>,
                      \<lparr>Song = 11, Next = Some 2, Prev = Some 0\<rparr>,
                      \<lparr>Song = 12, Next = None, Prev = Some 1\<rparr>],
            Head = Some 0, Tail = Some 2, Length = 3\<rparr> = Some (None, dll')
         \<and> ToSlice_dll dll' = Some [11, 10, 12])
   \<and> (\<exists>dll'. MoveSong_dll 2 0 \<lparr>nodes = [\<lparr>Song = 10, Next = Some 1, Prev = None\<rparr>,
                      \<lparr>Song = 11, Next = Some 2, Prev = Some 0\<rparr>,
                      \<lparr>Song = 12, Next = None, Prev = Some 1\<rparr>],
            Head = Some 0, Tail = Some 2, Length = 3\<rparr> = Some (None, dll')
         \<and> ToSlice_dll dll' = Some [12, 10, 11])"
proof -
  let ?d = "\<lparr>nodes = [\<lparr>Song = 10, Next = Some 1, Prev = None\<rparr>,
                      \<lparr>Song = 11, Next = Some 2, Prev = Some 0\<rparr>,
                      \<lparr>Song = 12, Next = None, Prev = Some 1\<rparr>],
            Head = Some 0, Tail = Some 2, Length = 3\<rparr>"
  have inv: "dll_inv ?d [0, 1, 2]"
    by (auto simp: dll_inv_def less_Suc_eq numeral_3_eq_3)
  have xs: "songs_of ?d [0, 1, 2] = [10, 11, 12]" by (simp add: songs_of_def)
  note spec = MoveSong_dll_spec [OF inv, unfolded xs]
  have a: "MoveSong_dll 0 5 ?d = Some (Some IndexOutOfBounds, ?d)"
    using spec [of 0 5] by simp
  have b: "\<exists>dll'. MoveSong_dll 0 2 ?d = Some (None, dll') \<and> ToSlice_dll dll' = Some [11, 10, 12]"
    using spec [of 0 2] by (auto simp: insert_at_def remove_at_def)
  have c: "\<exists>dll'. MoveSong_dll 2 0 ?d = Some (None, dll') \<and> ToSlice_dll dll' = Some [12, 10, 11]"
    using spec [of 2 0] by (auto simp: insert_at_def remove_at_def)
  from inv a b c show ?thesis by blast
qed

text \<open>
  C7. On a well-formed sequence, \<open>ReversePlaylist\<close> returns; the entities then read in
  reverse order; a second \<open>ReversePlaylist\<close> restores the original order exactly; and on
  a sequence of 0 or 1 elements a single call changes nothing.
\<close>

theorem ReversePlaylist_dll_involution:
  assumes inv: "dll_inv dll as"
  shows "\<exists>d1 d2. ReversePlaylist_dll dll = Some d1 \<and> ReversePlaylist_dll d1 = Some d2
           \<and> ToSlice_dll dll = Some (songs_of dll as)
           \<and> ToSlice_dll d1 = Some (rev (songs_of dll as))
           \<and> ToSlice_dll d2 = ToSlice_dll dll
           \<and> (length as \<le> 1 \<longrightarrow> d1 = dll)"
proof -
  from ReversePlaylist_dll_inv [OF inv] obtain d1 where
    d1: "ReversePlaylist_dll dll = Some d1" "dll_inv d1 (rev as)"
        "songs_of d1 (rev as) = rev (songs_of dll as)" "length as \<le> 1 \<longrightarrow> d1 = dll"
    by blast
  from ReversePlaylist_dll_inv [OF d1(2)] obtain d2 where
    d2: "ReversePlaylist_dll d1 = Some d2" "dll_inv d2 (rev (rev as))"
        "songs_of d2 (rev (rev as)) = rev (songs_of d1 (rev as))"
    by blast
  have "ToSlice_dll d2 = Some (songs_of dll as)"
    using ToSlice_dll_inv [OF d2(2)] d2(3) d1(3) by simp
  with d1 d2(1) ToSlice_dll_inv [OF inv] ToSlice_dll_inv [OF d1(2)] show ?thesis
    by auto
qed

theorem ReversePlaylist_dll_involution_witness:
  "dll_inv \<lparr>nodes = [\<lparr>Song = 10, Next = Some 1, Prev = None\<rparr>,
                      \<lparr>Song = 11, Next = Some 2, Prev = Some 0\<rparr>,
                      \<lparr>Song = 12, Next = None, Prev = Some 1\<rparr>],
            Head = Some 0, Tail = Some 2, Length = 3\<rparr> [0, 1, 2]
   \<and> (\<exists>d1 d2. ReversePlaylist_dll \<lparr>nodes = [\<lparr>Song = 10, Next = Some 1, Prev = None\<rparr>,
                      \<lparr>Song = 11, Next = Some 2, Prev = Some 0\<rparr>,
                      \<lparr>Song = 12, Next = None, Prev = Some 1\<rparr>],
            Head = Some 0, Tail = Some 2, Length = 3\<rparr> = Some d1
         \<and> ReversePlaylist_dll d1 = Some d2
         \<and> ToSlice_dll d1 = Some [12, 11, 10] \<and> ToSlice_dll d2 = Some [10, 11, 12])
   \<and> dll_inv \<lparr>nodes = [\<lparr>Song = 10, Next = None, Prev = None\<rparr>],
            Head = Some 0, Tail = Some 0, Length = 1\<rparr> [0]
   \<and> ReversePlaylist_dll \<lparr>nodes = [\<lparr>Song = 10, Next = None, Prev = None\<rparr>],
            Head = Some 0, Tail = Some 0, Length = 1\<rparr>
       = Some \<lparr>nodes = [\<lparr>Song = 10, Next = None, Prev = None\<rparr>],
            Head = Some 0, Tail = Some 0, Length = 1\<rparr>"
proof -
  let ?d = "\<lparr>nodes = [\<lparr>Song = 10, Next = Some 1, Prev = None\<rparr>,
                      \<lparr>Song = 11, Next = Some 2, Prev = Some 0\<rparr>,
                      \<lparr>Song = 12, Next = None, Prev = Some 1\<rparr>],
            Head = Some 0, Tail = Some 2, Length = 3\<rparr>"
  let ?e = "\<lparr>nodes = [\<lparr>Song = 10, Next = None, Prev = None\<rparr>],
            Head = Some 0, Tail = Some 0, Length = 1\<rparr>"
  have inv: "dll_inv ?d [0, 1, 2]"
    by (auto simp: dll_inv_def less_Suc_eq numeral_3_eq_3)
  have inv1: "dll_inv ?e [0]" by (simp add: dll_inv_def)
  have xs: "songs_of ?d [0, 1, 2] = [10, 11, 12]" by (simp add: songs_of_def)
  have a: "\<exists>d1 d2. ReversePlaylist_dll ?d = Some d1 \<and> ReversePlaylist_dll d1 = Some d2
         \<and> ToSlice_dll d1 = Some [12, 11, 10] \<and> ToSlice_dll d2 = Some [10, 11, 12]"
    using ReversePlaylist_dll_involution [OF inv, unfolded xs] by auto
  have b: "ReversePlaylist_dll ?e = Some ?e"
    using ReversePlaylist_dll_involution [OF inv1] by auto
  from inv a inv1 b show ?thesis by blast
qed

section \<open>Recommendations without play history\<close>




section \<open>Errors of \<open>AddSong\<close> leave the engine as it was\<close>

text \<open>
  C10. Whenever the engine's \<open>AddSong\<close> returns an error, the engine it leaves is the
  engine it was given (playlist, both lookup tables, rating tree, playlist tree, total
  play time and every other field), and the error has one of the two causes: a title or
  artist that \<open>strings.TrimSpace\<close> leaves empty, or a generated id already present in the
  by-id table. Conversely each of these causes yields the corresponding error. This holds
  for every value \<open>u\<close> of the Unicode behaviour of \<open>TrimSpace\<close> and \<open>ToLower\<close>, so for
  the library's.
\<close>

theorem AddSong_error_state_unchanged:
  "(AddSong u nanos now title artist album genre subgenre mood duration bpm pe
      = Some (Some err, pe')
      \<longrightarrow> pe' = pe
          \<and> (TrimSpace u title = [] \<or> TrimSpace u artist = []
               \<or> Contains (generateSongID u nanos title artist) (songLookup pe) = Some True))
   \<and> (TrimSpace u title = [] \<or> TrimSpace u artist = []
      \<longrightarrow> AddSong u nanos now title artist album genre subgenre mood duration bpm pe
            = Some (Some TitleArtistRequired, pe))
   \<and> (TrimSpace u title \<noteq> [] \<and> TrimSpace u artist \<noteq> []
        \<and> Contains (generateSongID u nanos title artist) (songLookup pe) = Some True
      \<longrightarrow> AddSong u nanos now title artist album genre subgenre mood duration bpm pe
            = Some (Some AlreadyExists, pe))"
  by (auto simp: AddSong_def Let_def split: option.splits bool.splits prod.splits if_splits)

theorem AddSong_error_state_unchanged_witness:
  "AddSong plainUnicode 7 0 ''  '' ''b'' ''c'' ''Rock'' ''Indie'' ''Calm'' 10 120
       (NewPlaylistEngine 0 ''mix'')
     = Some (Some TitleArtistRequired, NewPlaylistEngine 0 ''mix'')
   \<and> (case AddSong plainUnicode 7 0 ''a'' ''b'' ''c'' ''Rock'' ''Indie'' ''Calm'' 10 120
              (NewPlaylistEngine 0 ''mix'') of
        None \<Rightarrow> False
      | Some (err, pe1) \<Rightarrow>
          err = None
          \<and> AddSong plainUnicode 7 1 ''a'' ''b'' ''c'' ''Rock'' ''Indie'' ''Calm'' 10 120 pe1
              = Some (Some AlreadyExists, pe1))"
proof -
  let ?pe0 = "NewPlaylistEngine 0 ''mix''"
  let ?r = "AddSong plainUnicode 7 0 ''a'' ''b'' ''c'' ''Rock'' ''Indie'' ''Calm'' 10 120 ?pe0"
  have t: "TrimSpace plainUnicode ''  '' = []" by code_simp
  have a: "AddSong plainUnicode 7 0 ''  '' ''b'' ''c'' ''Rock'' ''Indie'' ''Calm'' 10 120 ?pe0
             = Some (Some TitleArtistRequired, ?pe0)"
    using AddSong_error_state_unchanged [of plainUnicode 7 0 "''  ''" "''b''" "''c''" "''Rock''" "''Indie''"
        "''Calm''" 10 120 ?pe0] t by simp
  have r1: "?r \<noteq> None" by code_simp
  have r2: "fst (the ?r) = None" by code_simp
  have c: "TrimSpace plainUnicode ''a'' \<noteq> [] \<and> TrimSpace plainUnicode ''b'' \<noteq> []
           \<and> Contains (generateSongID plainUnicode 7 ''a'' ''b'') (songLookup (snd (the ?r))) = Some True"
    by code_simp
  have b: "AddSong plainUnicode 7 1 ''a'' ''b'' ''c'' ''Rock'' ''Indie'' ''Calm'' 10 120 (snd (the ?r))
             = Some (Some AlreadyExists, snd (the ?r))"
    using AddSong_error_state_unchanged [of plainUnicode 7 1 "''a''" "''b''" "''c''" "''Rock''" "''Indie''"
        "''Calm''" 10 120 "snd (the ?r)"] c by blast
  from r1 obtain e p where ep: "?r = Some (e, p)" by (cases ?r) auto
  with r2 b have "e = None \<and> AddSong plainUnicode 7 1 ''a'' ''b'' ''c'' ''Rock'' ''Indie'' ''Calm'' 10 120 p
              = Some (Some AlreadyExists, p)" by simp
  with a ep show ?thesis by simp
qed

section \<open>Resizing the hash map\<close>

text \<open>Evaluation rules for runs of the hash map on concrete tables.\<close>

lemmas hm_eval = PutByTitle_def Put_def hm_exec_PutByTitle hm_exec_Put hm_exec_Resize
  hm_exec_Rehash_Nil hm_exec_Rehash_Cons NewSong_def deref_def putKey_def bucketAt_def hash_def
  NewSongHashMap_def go_mod_def Let_def GetByTitle_def Get_def djb2_def decodeRune_def makePanics_def

text \<open>
  C3. The claim is that in both instances of the table (keyed by id and keyed by title)
  every key present before a resize is still found after it. \<open>resize\<close> re-inserts the old
  entries with \<open>Put\<close>, which keys an entry by the id of its song, also in a table that was
  filled by \<open>PutByTitle\<close>. A table of capacity 1 filled by \<open>PutByTitle\<close> with three songs
  (ids a, b, c; titles x, y, z) finds the titles x and y before the third insertion; the
  third insertion resizes to capacity 2, and afterwards none of the three titles is found,
  while the id a is.
\<close>

theorem resize_rekeys_title_index:
  "let st = [NewSong 0 ''a'' ''x'' ''p'' [] [] [] [] 0 0,
             NewSong 0 ''b'' ''y'' ''q'' [] [] [] [] 0 0,
             NewSong 0 ''c'' ''z'' ''r'' [] [] [] [] 0 0]
   in \<exists>m1 m2 m3. PutByTitle st 0 (NewSongHashMap 1) = Some m1
     \<and> PutByTitle st 1 m1 = Some m2
     \<and> Size_hm m2 = 2 \<and> Capacity m2 = 1
     \<and> GetByTitle ''x'' m2 = Some (Inr 0) \<and> GetByTitle ''y'' m2 = Some (Inr 1)
     \<and> PutByTitle st 2 m2 = Some m3
     \<and> Size_hm m3 = 3 \<and> Capacity m3 = 2
     \<and> GetByTitle ''x'' m3 = Some (Inl NotFound)
     \<and> GetByTitle ''y'' m3 = Some (Inl NotFound)
     \<and> GetByTitle ''z'' m3 = Some (Inl NotFound)
     \<and> GetByTitle ''a'' m3 = Some (Inr 0)"
proof -
  define st where "st = [NewSong 0 ''a'' ''x'' ''p'' [] [] [] [] 0 0,
             NewSong 0 ''b'' ''y'' ''q'' [] [] [] [] 0 0,
             NewSong 0 ''c'' ''z'' ''r'' [] [] [] [] 0 0]"
  let ?m1 = "\<lparr>Buckets = [[\<lparr>Key = ''x'', Value = 0\<rparr>]], Size_hm = 1, Capacity = 1\<rparr>"
  let ?m2 = "\<lparr>Buckets = [[\<lparr>Key = ''x'', Value = 0\<rparr>, \<lparr>Key = ''y'', Value = 1\<rparr>]],
              Size_hm = 2, Capacity = 1\<rparr>"
  let ?m3 = "\<lparr>Buckets = [[\<lparr>Key = ''a'', Value = 0\<rparr>, \<lparr>Key = ''c'', Value = 2\<rparr>],
                         [\<lparr>Key = ''b'', Value = 1\<rparr>]],
              Size_hm = 3, Capacity = 2\<rparr>"
  have 1: "PutByTitle st 0 (NewSongHashMap 1) = Some ?m1"
    by (simp add: st_def hm_eval)
  have 2: "PutByTitle st 1 ?m1 = Some ?m2"
    by (simp add: st_def hm_eval)
  have 3: "PutByTitle st 2 ?m2 = Some ?m3"
    by (simp add: st_def hm_eval numeral_2_eq_2)
  have 4: "GetByTitle ''x'' ?m2 = Some (Inr 0)" "GetByTitle ''y'' ?m2 = Some (Inr 1)"
    by (simp_all add: hm_eval)
  have 5: "GetByTitle ''x'' ?m3 = Some (Inl NotFound)" "GetByTitle ''y'' ?m3 = Some (Inl NotFound)"
    "GetByTitle ''z'' ?m3 = Some (Inl NotFound)" "GetByTitle ''a'' ?m3 = Some (Inr 0)"
    by (simp_all add: hm_eval)
  from 1 2 3 4 5 have "\<exists>m1 m2 m3. PutByTitle st 0 (NewSongHashMap 1) = Some m1
     \<and> PutByTitle st 1 m1 = Some m2
     \<and> Size_hm m2 = 2 \<and> Capacity m2 = 1
     \<and> GetByTitle ''x'' m2 = Some (Inr 0) \<and> GetByTitle ''y'' m2 = Some (Inr 1)
     \<and> PutByTitle st 2 m2 = Some m3
     \<and> Size_hm m3 = 3 \<and> Capacity m3 = 2
     \<and> GetByTitle ''x'' m3 = Some (Inl NotFound)
     \<and> GetByTitle ''y'' m3 = Some (Inl NotFound)
     \<and> GetByTitle ''z'' m3 = Some (Inl NotFound)
     \<and> GetByTitle ''a'' m3 = Some (Inr 0)" by simp
  then show ?thesis unfolding st_def Let_def .
qed

text \<open>
  The check \<open>Size > Capacity * 2\<close> is reached only on the path that appends to a chain:
  an insertion into an empty bucket returns before it. With capacity 2, four ids in bucket
  0 and then one id in the empty bucket 1 leave five entries in two buckets.
\<close>

lemma Put_empty_bucket_skips_resize:
  "let st = [NewSong 0 ''a'' ''t'' ''p'' [] [] [] [] 0 0,
             NewSong 0 ''c'' ''t'' ''p'' [] [] [] [] 0 0,
             NewSong 0 ''e'' ''t'' ''p'' [] [] [] [] 0 0,
             NewSong 0 ''g'' ''t'' ''p'' [] [] [] [] 0 0,
             NewSong 0 ''b'' ''t'' ''p'' [] [] [] [] 0 0]
   in \<exists>m1 m2 m3 m4 m5. Put st 0 (NewSongHashMap 2) = Some m1 \<and> Put st 1 m1 = Some m2
        \<and> Put st 2 m2 = Some m3 \<and> Put st 3 m3 = Some m4 \<and> Size_hm m4 = 4 \<and> Capacity m4 = 2
        \<and> Put st 4 m4 = Some m5 \<and> Size_hm m5 = 5 \<and> Capacity m5 = 2
        \<and> length (Buckets m5) = 2"
proof -
  define st where "st = [NewSong 0 ''a'' ''t'' ''p'' [] [] [] [] 0 0,
             NewSong 0 ''c'' ''t'' ''p'' [] [] [] [] 0 0,
             NewSong 0 ''e'' ''t'' ''p'' [] [] [] [] 0 0,
             NewSong 0 ''g'' ''t'' ''p'' [] [] [] [] 0 0,
             NewSong 0 ''b'' ''t'' ''p'' [] [] [] [] 0 0]"
  let ?m1 = "\<lparr>Buckets = [[\<lparr>Key = ''a'', Value = 0\<rparr>], []], Size_hm = 1, Capacity = 2\<rparr>"
  let ?m2 = "\<lparr>Buckets = [[\<lparr>Key = ''a'', Value = 0\<rparr>, \<lparr>Key = ''c'', Value = 1\<rparr>], []],
              Size_hm = 2, Capacity = 2\<rparr>"
  let ?m3 = "\<lparr>Buckets = [[\<lparr>Key = ''a'', Value = 0\<rparr>, \<lparr>Key = ''c'', Value = 1\<rparr>,
                          \<lparr>Key = ''e'', Value = 2\<rparr>], []],
              Size_hm = 3, Capacity = 2\<rparr>"
  let ?m4 = "\<lparr>Buckets = [[\<lparr>Key = ''a'', Value = 0\<rparr>, \<lparr>Key = ''c'', Value = 1\<rparr>,
                          \<lparr>Key = ''e'', Value = 2\<rparr>, \<lparr>Key = ''g'', Value = 3\<rparr>], []],
              Size_hm = 4, Capacity = 2\<rparr>"
  let ?m5 = "\<lparr>Buckets = [[\<lparr>Key = ''a'', Value = 0\<rparr>, \<lparr>Key = ''c'', Value = 1\<rparr>,
                          \<lparr>Key = ''e'', Value = 2\<rparr>, \<lparr>Key = ''g'', Value = 3\<rparr>],
                         [\<lparr>Key = ''b'', Value = 4\<rparr>]],
              Size_hm = 5, Capacity = 2\<rparr>"
  have 1: "Put st 0 (NewSongHashMap 2) = Some ?m1"
    by (simp add: st_def hm_eval numeral_2_eq_2)
  have 2: "Put st 1 ?m1 = Some ?m2"
    by (simp add: st_def hm_eval)
  have 3: "Put st 2 ?m2 = Some ?m3"
    by (simp add: st_def hm_eval)
  have 4: "Put st 3 ?m3 = Some ?m4"
    by (simp add: st_def hm_eval)
  have 5: "Put st 4 ?m4 = Some ?m5"
    by (simp add: st_def hm_eval)
  from 1 2 3 4 5 have "\<exists>m1 m2 m3 m4 m5. Put st 0 (NewSongHashMap 2) = Some m1 \<and> Put st 1 m1 = Some m2
        \<and> Put st 2 m2 = Some m3 \<and> Put st 3 m3 = Some m4 \<and> Size_hm m4 = 4 \<and> Capacity m4 = 2
        \<and> Put st 4 m4 = Some m5 \<and> Size_hm m5 = 5 \<and> Capacity m5 = 2
        \<and> length (Buckets m5) = 2" by simp
  then show ?thesis unfolding st_def Let_def .
qed

end
